theory Spec2Isabelle
  imports
    Complex_Main
    "HOL-Library.Sublist"
    "HOL-Library.AList"
    "HOL-Library.Char_ord"
    "HOL-Library.List_Lexorder"
    "HOL-Library.Product_Lexorder"
begin

section \<open>Strings\<close>

text \<open>
  The program is \<^verbatim>\<open>generate_index.py\<close>.  Python strings are modelled as \<^typ>\<open>string\<close>
  and cover ASCII text: \<open>lower_char\<close> and \<open>upper_char\<close> map the 26 ASCII letters and
  leave every other character alone, \<open>isspace\<close> holds for the ASCII characters on which
  \<^verbatim>\<open>str.isspace\<close> (and the pattern \<^verbatim>\<open>\s\<close>) holds, \<open>isdigit\<close> for the ASCII characters
  matched by \<^verbatim>\<open>\d\<close>.
\<close>

definition ascii_lowercase :: string where
  "ascii_lowercase = ''abcdefghijklmnopqrstuvwxyz''"

definition ascii_uppercase :: string where
  "ascii_uppercase = ''ABCDEFGHIJKLMNOPQRSTUVWXYZ''"

definition lower_char :: "char \<Rightarrow> char" where
  "lower_char c =
     (case map_of (zip ascii_uppercase ascii_lowercase) c of Some l \<Rightarrow> l | None \<Rightarrow> c)"

definition upper_char :: "char \<Rightarrow> char" where
  "upper_char c =
     (case map_of (zip ascii_lowercase ascii_uppercase) c of Some u \<Rightarrow> u | None \<Rightarrow> c)"

definition lower :: "string \<Rightarrow> string" where
  "lower s = map lower_char s"

definition upper :: "string \<Rightarrow> string" where
  "upper s = map upper_char s"

definition isspace :: "char \<Rightarrow> bool" where
  "isspace c \<longleftrightarrow>
     c \<in> set [CHR 0x09, CHR 0x0A, CHR 0x0B, CHR 0x0C, CHR 0x0D,
               CHR 0x1C, CHR 0x1D, CHR 0x1E, CHR 0x1F, CHR 0x20]"

definition isdigit :: "char \<Rightarrow> bool" where
  "isdigit c \<longleftrightarrow> c \<in> set ''0123456789''"

text \<open>\<^verbatim>\<open>s.strip()\<close>: whitespace is removed at both ends.\<close>

definition strip :: "string \<Rightarrow> string" where
  "strip s = rev (dropWhile isspace (rev (dropWhile isspace s)))"

text \<open>\<^verbatim>\<open>sub in s\<close>: \<open>sub\<close> occurs in \<open>s\<close> as a contiguous block.\<close>

fun contains :: "string \<Rightarrow> string \<Rightarrow> bool" where
  "contains sub [] = (sub = [])"
| "contains sub (c # cs) = (prefix sub (c # cs) \<or> contains sub cs)"

text \<open>\<^verbatim>\<open>s.split(sep, 1)\<close> for a one-character separator: one part when \<open>sep\<close> does not
  occur, otherwise the text before the first \<open>sep\<close> and the text after it.\<close>

definition split1 :: "char \<Rightarrow> string \<Rightarrow> string list" where
  "split1 sep s =
     (case dropWhile (\<lambda>c. c \<noteq> sep) s of
        [] \<Rightarrow> [s]
      | _ # rest \<Rightarrow> [takeWhile (\<lambda>c. c \<noteq> sep) s, rest])"

text \<open>\<^verbatim>\<open>s.split(sep)\<close> for a one-character separator.\<close>

fun split_on :: "char \<Rightarrow> string \<Rightarrow> string list" where
  "split_on sep [] = [[]]"
| "split_on sep (c # cs) =
     (if c = sep then [] # split_on sep cs
      else (case split_on sep cs of
              [] \<Rightarrow> [[c]]
            | p # ps \<Rightarrow> (c # p) # ps))"

section \<open>Name classifier\<close>

definition detect_form_factor :: "string \<Rightarrow> string" where
  "detect_form_factor target_folder =
     (let target_lower = lower target_folder in
      if contains ''in-ear'' target_lower \<or> contains ''in_ear'' target_lower
           \<or> contains ''iem'' target_lower then ''in-ear''
      else if contains ''earbud'' target_lower then ''earbud''
      else ''over-ear'')"

definition manufacturers :: "string list" where
  "manufacturers =
     [''AKG'', ''Audio-Technica'', ''Audeze'', ''Bang & Olufsen'', ''Beats'', ''Beyerdynamic'',
      ''Bose'', ''Campfire Audio'', ''Dan Clark Audio'', ''Denon'', ''FiiO'', ''Final'',
      ''Focal'', ''Grado'', ''HarmonicDyne'', ''HIFIMAN'', ''JBL'', ''Koss'', ''Massdrop'',
      ''Meze'', ''Moondrop'', ''Philips'', ''Pioneer'', ''Sennheiser'', ''Shure'', ''Sony'',
      ''SteelSeries'', ''STAX'', ''Tin HiFi'', ''V-MODA'', ''ZMF'', ''64 Audio'', ''7Hz'',
      ''Anker'', ''Apple'', ''AFUL'', ''BLON'', ''CCA'', ''Dunu'', ''Empire Ears'', ''Etymotic'',
      ''FatFreq'', ''Hidizs'', ''HiBy'', ''iBasso'', ''JVC'', ''KZ'', ''Letshuoer'', ''Linsoul'',
      ''Noble Audio'', ''QKZ'', ''Samsung'', ''See Audio'', ''Simgot'', ''SoftEars'',
      ''Tangzu'', ''Thieaudio'', ''Tinhifi'', ''Tripowin'', ''TRN'', ''Truthear'',
      ''Unique Melody'', ''Westone'', ''Yanyin'', ''BGVP'', ''CCZ'']"

text \<open>The two nested tests of the loop body of \<^verbatim>\<open>parse_headphone_name\<close>.\<close>

definition mfr_hit :: "string \<Rightarrow> string \<Rightarrow> bool" where
  "mfr_hit folder_name mfr =
     (prefix (lower mfr) (lower folder_name) \<and>
      (prefix (lower mfr @ '' '') (lower folder_name) \<or> lower folder_name = lower mfr))"

text \<open>The loop over the manufacturers, with the list still to be tried as argument; the
  code after the loop is the case of the empty list.\<close>

fun scan_manufacturers :: "string list \<Rightarrow> string \<Rightarrow> string \<times> string" where
  "scan_manufacturers [] folder_name =
     (let parts = split1 CHR '' '' folder_name in
      if length parts = 2 then (parts ! 0, parts ! 1) else (folder_name, ''''))"
| "scan_manufacturers (mfr # rest) folder_name =
     (if mfr_hit folder_name mfr then
        (let model = strip (drop (length mfr) folder_name) in
         (mfr, if model \<noteq> [] then model else folder_name))
      else scan_manufacturers rest folder_name)"

definition parse_headphone_name :: "string \<Rightarrow> string \<times> string" where
  "parse_headphone_name folder_name = scan_manufacturers manufacturers folder_name"

section \<open>Numbers and errors\<close>

text \<open>
  An exception that nothing in the program catches ends the run; it is the \<open>Inl\<close> value
  of a result.  \<open>UsageError\<close> and \<open>RootMissing\<close> are the two \<^verbatim>\<open>sys.exit(1)\<close> of
  \<^verbatim>\<open>main\<close>.
\<close>

datatype error = UsageError | RootMissing | NotADirectoryError | ValueError

text \<open>
  A float is modelled by the rational number its decimal text denotes; the rounding to a
  binary double is not modelled.
\<close>

definition digit_val :: "char \<Rightarrow> nat" where
  "digit_val c =
     (case map_of (zip ''0123456789'' [0, 1, 2, 3, 4, 5, 6, 7, 8, 9]) c of
        Some d \<Rightarrow> d | None \<Rightarrow> 0)"

definition digits_val :: "string \<Rightarrow> nat" where
  "digits_val ds = foldl (\<lambda>n c. 10 * n + digit_val c) 0 ds"

text \<open>
  \<^verbatim>\<open>float(text)\<close> on the texts the patterns of \<^verbatim>\<open>parse_profile\<close> can capture: digits
  and dots, after an optional minus sign.  Python accepts such a text when it has at most
  one dot and at least one digit, and raises \<^verbatim>\<open>ValueError\<close> otherwise.
\<close>

definition unsigned_float :: "string \<Rightarrow> error + rat" where
  "unsigned_float s =
     (let ip = takeWhile isdigit s in
      case dropWhile isdigit s of
        [] \<Rightarrow> if ip = [] then Inl ValueError else Inr (of_nat (digits_val ip))
      | c # fp \<Rightarrow>
          if c = CHR ''.'' \<and> list_all isdigit fp \<and> \<not> (ip = [] \<and> fp = [])
          then Inr (of_nat (digits_val ip) + of_nat (digits_val fp) / 10 ^ length fp)
          else Inl ValueError)"

definition py_float :: "string \<Rightarrow> error + rat" where
  "py_float s =
     (case s of
        [] \<Rightarrow> Inl ValueError
      | c # r \<Rightarrow> if c = CHR ''-'' then map_sum id uminus (unsigned_float r)
                 else unsigned_float s)"

section \<open>Regular expressions of the profile parser\<close>

text \<open>
  \<^verbatim>\<open>re.search\<close> tries the pattern at every position from the left and returns the first
  match.  A pattern is given by its matcher at one position, which returns the captured
  text.
\<close>

fun re_search :: "(string \<Rightarrow> string option) \<Rightarrow> string \<Rightarrow> string option" where
  "re_search m [] = m []"
| "re_search m (c # cs) =
     (case m (c # cs) of Some r \<Rightarrow> Some r | None \<Rightarrow> re_search m cs)"

text \<open>\<^verbatim>\<open>\d+\.?\d*\<close> at the start of \<open>s\<close>; every part is greedy and nothing follows, so
  the match is the longest one.\<close>

definition match_unsigned :: "string \<Rightarrow> string option" where
  "match_unsigned s =
     (case takeWhile isdigit s of
        [] \<Rightarrow> None
      | d # ds \<Rightarrow>
          (case dropWhile isdigit s of
             [] \<Rightarrow> Some (d # ds)
           | c # r \<Rightarrow> if c = CHR ''.'' then Some ((d # ds) @ c # takeWhile isdigit r)
                      else Some (d # ds)))"

text \<open>\<^verbatim>\<open>-?\d+\.?\d*\<close>: after a minus sign that no digit follows, the pattern is retried
  without the sign and fails on the sign itself.\<close>

definition match_signed :: "string \<Rightarrow> string option" where
  "match_signed s =
     (case s of
        [] \<Rightarrow> None
      | c # r \<Rightarrow> if c = CHR ''-'' then map_option ((#) c) (match_unsigned r)
                 else match_unsigned s)"

text \<open>\<^verbatim>\<open>\s+\<close> followed by a part that cannot start with whitespace: all the whitespace
  is taken, and there must be some.\<close>

definition after_spaces :: "(string \<Rightarrow> string option) \<Rightarrow> string \<Rightarrow> string option" where
  "after_spaces m s = (if takeWhile isspace s = [] then None else m (dropWhile isspace s))"

text \<open>A literal of the pattern under \<^verbatim>\<open>re.IGNORECASE\<close>, then the rest of the pattern.\<close>

fun literal_ci :: "string \<Rightarrow> (string \<Rightarrow> string option) \<Rightarrow> string \<Rightarrow> string option" where
  "literal_ci [] m s = m s"
| "literal_ci (p # ps) m [] = None"
| "literal_ci (p # ps) m (c # cs) =
     (if lower_char c = lower_char p then literal_ci ps m cs else None)"

text \<open>\<^verbatim>\<open>Fc\s+(\d+\.?\d*)\<close> and \<^verbatim>\<open>Gain\s+(-?\d+\.?\d*)\<close>, group 1.\<close>

definition match_fc :: "string \<Rightarrow> string option" where
  "match_fc = literal_ci ''Fc'' (after_spaces match_unsigned)"

definition match_gain :: "string \<Rightarrow> string option" where
  "match_gain = literal_ci ''Gain'' (after_spaces match_signed)"

text \<open>\<^verbatim>\<open>[\d.]+\<close>\<close>

definition match_digits_dots :: "string \<Rightarrow> string option" where
  "match_digits_dots s =
     (case takeWhile (\<lambda>c. isdigit c \<or> c = CHR ''.'') s of [] \<Rightarrow> None | d # ds \<Rightarrow> Some (d # ds))"

text \<open>\<^verbatim>\<open>\sQ\s+([\d.]+)\<close>, group 1.\<close>

definition match_q :: "string \<Rightarrow> string option" where
  "match_q s =
     (case s of
        [] \<Rightarrow> None
      | w # r \<Rightarrow> if isspace w then literal_ci ''Q'' (after_spaces match_digits_dots) r else None)"

section \<open>Profile parser\<close>

record filter =
  ftype :: string
  freq :: rat
  q :: rat
  gain :: rat

record profile =
  preamp :: rat
  filters :: "filter list"

text \<open>The dictionary \<^verbatim>\<open>FILTER_TYPES\<close>, in its insertion order.\<close>

definition FILTER_TYPES :: "(string \<times> string) list" where
  "FILTER_TYPES =
     [(''PK'', ''peaking''),
      (''PEQ'', ''peaking''),
      (''LSC'', ''lowShelf''),
      (''LSB'', ''lowShelf''),
      (''LS'', ''lowShelf''),
      (''HSC'', ''highShelf''),
      (''HSB'', ''highShelf''),
      (''HS'', ''highShelf''),
      (''LP'', ''lowPass''),
      (''LPQ'', ''lowPass''),
      (''HP'', ''highPass''),
      (''HPQ'', ''highPass'')]"

text \<open>The loop over \<^verbatim>\<open>FILTER_TYPES.items()\<close> with its \<^verbatim>\<open>break\<close>; \<open>None\<close> is the
  initial \<^verbatim>\<open>filter_type = None\<close>.\<close>

fun detect_filter_type :: "(string \<times> string) list \<Rightarrow> string \<Rightarrow> string option" where
  "detect_filter_type [] upper_line = None"
| "detect_filter_type ((code, ty) # rest) upper_line =
     (if contains ('' '' @ code @ '' '') upper_line then Some ty
      else detect_filter_type rest upper_line)"

text \<open>A field of a filter: the default when the pattern finds nothing, \<^verbatim>\<open>float\<close> of
  group 1 otherwise.\<close>

definition field_value :: "(string \<Rightarrow> string option) \<Rightarrow> rat \<Rightarrow> string \<Rightarrow> error + rat" where
  "field_value m dflt line =
     (case re_search m line of None \<Rightarrow> Inr dflt | Some g \<Rightarrow> py_float g)"

text \<open>The body of the loop over the lines of \<^verbatim>\<open>parse_profile\<close>, after its first
  statement \<^verbatim>\<open>line = line.strip()\<close>.  The state is the pair of \<^verbatim>\<open>preamp\<close> and
  \<^verbatim>\<open>filters\<close>; every \<^verbatim>\<open>continue\<close> returns it unchanged; the two tests joined by
  \<^verbatim>\<open>or\<close> are made one after the other.\<close>

definition parse_line :: "string \<Rightarrow> profile \<Rightarrow> error + profile" where
  "parse_line line st =
     (if prefix ''preamp:'' (lower line) then
        (case re_search match_signed line of
           None \<Rightarrow> Inr st
         | Some g \<Rightarrow>
             (case py_float g of Inl e \<Rightarrow> Inl e | Inr v \<Rightarrow> Inr (st\<lparr>preamp := v\<rparr>)))
      else if \<not> contains ''Filter'' line then Inr st
      else if \<not> contains '':'' line then Inr st
      else
        let upper_line = upper line in
        if \<not> contains '' ON '' upper_line then Inr st
        else
          (case detect_filter_type FILTER_TYPES upper_line of
             None \<Rightarrow> Inr st
           | Some filter_type \<Rightarrow>
               if filter_type = [] then Inr st
               else
                 (case field_value match_fc 1000 line of
                    Inl e \<Rightarrow> Inl e
                  | Inr fr \<Rightarrow>
                      (case field_value match_gain 0 line of
                         Inl e \<Rightarrow> Inl e
                       | Inr g \<Rightarrow>
                           (case field_value match_q (707 / 1000) line of
                              Inl e \<Rightarrow> Inl e
                            | Inr qv \<Rightarrow>
                                Inr (st\<lparr>filters := filters st @
                                       [\<lparr>ftype = filter_type, freq = fr, q = qv,
                                         gain = g\<rparr>]\<rparr>))))))"

text \<open>The whole body of the loop, on a line as \<^verbatim>\<open>split\<close> gives it.\<close>

definition parse_raw_line :: "string \<Rightarrow> profile \<Rightarrow> error + profile" where
  "parse_raw_line raw st = parse_line (strip raw) st"

text \<open>A loop whose body can raise: the first error ends it.\<close>

fun fold_err :: "('a \<Rightarrow> 's \<Rightarrow> error + 's) \<Rightarrow> 'a list \<Rightarrow> 's \<Rightarrow> error + 's" where
  "fold_err f [] st = Inr st"
| "fold_err f (x # xs) st =
     (case f x st of Inl e \<Rightarrow> Inl e | Inr st' \<Rightarrow> fold_err f xs st')"

text \<open>
  \<^verbatim>\<open>parse_profile\<close>.  The argument is what \<^verbatim>\<open>open\<close> and \<^verbatim>\<open>read\<close> give: \<open>None\<close> when
  they raise (the \<^verbatim>\<open>except Exception\<close> branch, which returns \<^verbatim>\<open>None\<close>), the text of
  the file otherwise.
\<close>

definition parse_profile :: "string option \<Rightarrow> error + profile option" where
  "parse_profile file =
     (case file of
        None \<Rightarrow> Inr None
      | Some content \<Rightarrow>
          (case fold_err parse_raw_line (split_on CHR 0x0A content)
                  \<lparr>preamp = 0, filters = []\<rparr> of
             Inl e \<Rightarrow> Inl e
           | Inr st \<Rightarrow> Inr (Some st)))"

section \<open>Catalog builder\<close>

text \<open>
  The directory tree: a file with its text (\<open>None\<close> when it cannot be read as UTF-8
  text), or a directory with its entries in the order \<^verbatim>\<open>os.listdir\<close> returns them.
\<close>

datatype node = File "string option" | Dir "(string \<times> node) list"

text \<open>\<^verbatim>\<open>path / name\<close>: the node there, \<open>None\<close> when \<^verbatim>\<open>exists()\<close> is false.\<close>

fun child :: "node \<Rightarrow> string \<Rightarrow> node option" where
  "child (File _) name = None"
| "child (Dir ls) name = map_of ls name"

text \<open>Opening and reading a path that exists; a directory cannot be opened.\<close>

fun read_text :: "node \<Rightarrow> string option" where
  "read_text (File c) = c"
| "read_text (Dir _) = None"

record entry =
  entry_id :: string
  manufacturer :: string
  model :: string
  source :: string
  formFactor :: string
  entry_preamp :: rat
  entry_filters :: "filter list"

record catalog =
  version :: nat
  generatedAt :: string
  entryCount :: nat
  entries :: "entry list"

text \<open>The dictionary \<^verbatim>\<open>SOURCE_INFO\<close>, in its insertion order.\<close>

definition SOURCE_INFO :: "(string \<times> nat \<times> string) list" where
  "SOURCE_INFO =
     [(''oratory1990'', 1, ''oratory1990''),
      (''crinacle'', 2, ''crinacle''),
      (''Rtings'', 3, ''rtings''),
      (''Innerfidelity'', 3, ''innerfidelity''),
      (''Headphone.com Legacy'', 4, ''headphone.com'')]"

type_synonym key = "string \<times> string"

text \<open>
  \<^verbatim>\<open>all_entries\<close>: a dictionary in insertion order, from the key to the entry and
  its \<^verbatim>\<open>_priority\<close>.  Storing under a key that is present keeps the key's place.
\<close>

type_synonym all_entries = "(key \<times> nat \<times> entry) list"

text \<open>Lines 204 to 206: the merge of one entry into \<^verbatim>\<open>all_entries\<close>.\<close>

definition merge_entry :: "key \<Rightarrow> nat \<Rightarrow> entry \<Rightarrow> all_entries \<Rightarrow> all_entries" where
  "merge_entry k priority e acc =
     (case map_of acc k of
        None \<Rightarrow> AList.update k (priority, e) acc
      | Some (kept_priority, _) \<Rightarrow>
          if priority < kept_priority then AList.update k (priority, e) acc else acc)"

text \<open>The key of an entry, as the merge and the sort compute it.\<close>

definition entry_key :: "entry \<Rightarrow> key" where
  "entry_key e = (lower (manufacturer e), lower (model e))"

text \<open>
  The body of the innermost loop up to the merge: the entry of one headphone folder,
  \<open>None\<close> where the code says \<^verbatim>\<open>continue\<close>.
\<close>

definition headphone_entry ::
  "string \<Rightarrow> string \<Rightarrow> string \<times> node \<Rightarrow> error + entry option" where
  "headphone_entry source_name form_factor hp =
     (case hp of (headphone_folder, headphone_path) \<Rightarrow>
        (case headphone_path of
           File _ \<Rightarrow> Inr None
         | Dir _ \<Rightarrow>
             (case child headphone_path (headphone_folder @ '' ParametricEQ.txt'') of
                None \<Rightarrow> Inr None
              | Some peq_file \<Rightarrow>
                  (case parse_profile (read_text peq_file) of
                     Inl err \<Rightarrow> Inl err
                   | Inr None \<Rightarrow> Inr None
                   | Inr (Some prof) \<Rightarrow>
                       if filters prof = [] then Inr None
                       else
                         (case parse_headphone_name headphone_folder of
                            (mfr, mdl) \<Rightarrow>
                              Inr (Some \<lparr>entry_id = source_name @ ''/'' @ headphone_folder,
                                         manufacturer = mfr, model = mdl,
                                         source = source_name, formFactor = form_factor,
                                         entry_preamp = preamp prof,
                                         entry_filters = filters prof\<rparr>))))))"

definition visit_headphone ::
  "nat \<Rightarrow> string \<Rightarrow> string \<Rightarrow> string \<times> node \<Rightarrow> all_entries \<Rightarrow> error + all_entries" where
  "visit_headphone priority source_name form_factor hp acc =
     (case headphone_entry source_name form_factor hp of
        Inl err \<Rightarrow> Inl err
      | Inr None \<Rightarrow> Inr acc
      | Inr (Some e) \<Rightarrow> Inr (merge_entry (entry_key e) priority e acc))"

text \<open>The body of the loop over the target folders of one source.\<close>

definition visit_target ::
  "nat \<Rightarrow> string \<Rightarrow> string \<times> node \<Rightarrow> all_entries \<Rightarrow> error + all_entries" where
  "visit_target priority source_name tg acc =
     (case tg of (target_folder, target_path) \<Rightarrow>
        (case target_path of
           File _ \<Rightarrow> Inr acc
         | Dir headphones \<Rightarrow>
             fold_err (visit_headphone priority source_name (detect_form_factor target_folder))
               headphones acc))"

text \<open>The body of the loop over \<^verbatim>\<open>SOURCE_INFO.items()\<close>.  \<^verbatim>\<open>os.listdir\<close> raises on a
  source path that exists and is a file.\<close>

definition visit_source ::
  "node \<Rightarrow> string \<times> nat \<times> string \<Rightarrow> all_entries \<Rightarrow> error + all_entries" where
  "visit_source results_path src acc =
     (case src of (source_folder, priority, source_name) \<Rightarrow>
        (case child results_path source_folder of
           None \<Rightarrow> Inr acc
         | Some (File _) \<Rightarrow> Inl NotADirectoryError
         | Some (Dir targets) \<Rightarrow> fold_err (visit_target priority source_name) targets acc))"

definition collect :: "node \<Rightarrow> error + all_entries" where
  "collect results_path = fold_err (visit_source results_path) SOURCE_INFO []"

text \<open>
  \<^verbatim>\<open>main\<close>: \<open>argv\<close> is \<^verbatim>\<open>sys.argv\<close>, \<open>fs\<close> gives the tree at a path when the path
  exists, \<open>now\<close> is the text of the current time.  The result is the database that is
  printed.  \<^verbatim>\<open>list.sort\<close> is stable, as \<open>sort_key\<close> is.
\<close>

definition main :: "string list \<Rightarrow> (string \<rightharpoonup> node) \<Rightarrow> string \<Rightarrow> error + catalog" where
  "main argv fs now =
     (if length argv < 2 then Inl UsageError
      else
        (case fs (argv ! 1) of
           None \<Rightarrow> Inl RootMissing
         | Some results_path \<Rightarrow>
             (case collect results_path of
                Inl err \<Rightarrow> Inl err
              | Inr acc \<Rightarrow>
                  (let es = sort_key entry_key (map (\<lambda>(k, p, e). e) acc) in
                   Inr \<lparr>version = 1, generatedAt = now, entryCount = length es,
                        entries = es\<rparr>))))"

section \<open>Specification vocabulary\<close>

text \<open>A line contains a token case-insensitively: some block of the line is the token
  (given in upper case) once upper-cased.\<close>

definition occurs_ci :: "string \<Rightarrow> string \<Rightarrow> bool" where
  "occurs_ci tok line \<longleftrightarrow> (\<exists>t. sublist t line \<and> upper t = tok)"

text \<open>An eligible filter line: a trimmed line that is not a preamp declaration, contains
  \<^verbatim>\<open>Filter\<close> and a colon and, case-insensitively, \<^verbatim>\<open> ON \<close> between spaces.\<close>

definition eligible :: "string \<Rightarrow> bool" where
  "eligible line \<longleftrightarrow>
     \<not> prefix ''preamp:'' (lower line) \<and> contains ''Filter'' line \<and> contains '':'' line \<and>
     occurs_ci '' ON '' line"

text \<open>The tokens of the numeric fields: \<^verbatim>\<open>Fc\<close> and \<^verbatim>\<open>Gain\<close> in any case followed by a
  whitespace character, and a \<^verbatim>\<open>Q\<close> in any case standing between two whitespace
  characters.\<close>

definition has_fc_token :: "string \<Rightarrow> bool" where
  "has_fc_token line \<longleftrightarrow> (\<exists>t w. sublist (t @ [w]) line \<and> upper t = ''FC'' \<and> isspace w)"

definition has_gain_token :: "string \<Rightarrow> bool" where
  "has_gain_token line \<longleftrightarrow> (\<exists>t w. sublist (t @ [w]) line \<and> upper t = ''GAIN'' \<and> isspace w)"

definition has_q_token :: "string \<Rightarrow> bool" where
  "has_q_token line \<longleftrightarrow>
     (\<exists>w t w'. sublist (w # t @ [w']) line \<and> isspace w \<and> upper t = ''Q'' \<and> isspace w')"

text \<open>The invariant of the filter list: no negative frequency and no negative Q.\<close>

definition nonneg_filters :: "profile \<Rightarrow> bool" where
  "nonneg_filters st \<longleftrightarrow> list_all (\<lambda>f. 0 \<le> freq f \<and> 0 \<le> q f) (filters st)"

text \<open>
  The entries a run reaches, in the order the three nested loops reach them, each with
  its key and the priority of its source; the first error ends the walk, as it ends the
  run.  They are what \<open>collect\<close> merges one after the other.
\<close>

type_synonym seen_entry = "key \<times> nat \<times> entry"

fun gather :: "('a \<Rightarrow> error + 'b list) \<Rightarrow> 'a list \<Rightarrow> error + 'b list" where
  "gather g [] = Inr []"
| "gather g (x # xs) =
     (case g x of
        Inl err \<Rightarrow> Inl err
      | Inr ys \<Rightarrow> (case gather g xs of Inl err \<Rightarrow> Inl err | Inr zs \<Rightarrow> Inr (ys @ zs)))"

definition seen_in_headphone ::
  "nat \<Rightarrow> string \<Rightarrow> string \<Rightarrow> string \<times> node \<Rightarrow> error + seen_entry list" where
  "seen_in_headphone priority source_name form_factor hp =
     (case headphone_entry source_name form_factor hp of
        Inl err \<Rightarrow> Inl err
      | Inr None \<Rightarrow> Inr []
      | Inr (Some e) \<Rightarrow> Inr [(entry_key e, priority, e)])"

definition seen_in_target :: "nat \<Rightarrow> string \<Rightarrow> string \<times> node \<Rightarrow> error + seen_entry list" where
  "seen_in_target priority source_name tg =
     (case tg of (target_folder, target_path) \<Rightarrow>
        (case target_path of
           File _ \<Rightarrow> Inr []
         | Dir headphones \<Rightarrow>
             gather (seen_in_headphone priority source_name (detect_form_factor target_folder))
               headphones))"

definition seen_in_source :: "node \<Rightarrow> string \<times> nat \<times> string \<Rightarrow> error + seen_entry list" where
  "seen_in_source results_path src =
     (case src of (source_folder, priority, source_name) \<Rightarrow>
        (case child results_path source_folder of
           None \<Rightarrow> Inr []
         | Some (File _) \<Rightarrow> Inl NotADirectoryError
         | Some (Dir targets) \<Rightarrow> gather (seen_in_target priority source_name) targets))"

definition seen :: "node \<Rightarrow> error + seen_entry list" where
  "seen results_path = gather (seen_in_source results_path) SOURCE_INFO"

text \<open>Merging a sequence of entries, the first one first.\<close>

fun merge_all :: "seen_entry list \<Rightarrow> all_entries \<Rightarrow> all_entries" where
  "merge_all [] acc = acc"
| "merge_all ((k, priority, e) # rest) acc = merge_all rest (merge_entry k priority e acc)"

text \<open>The keys of the dictionary are distinct, and each is the key of its entry.\<close>

definition keyed :: "all_entries \<Rightarrow> bool" where
  "keyed acc \<longleftrightarrow> distinct (map fst acc) \<and> list_all (\<lambda>(k, p, e). k = entry_key e) acc"





text \<open>The matching rule of the name classifier in the words of the specification: the
  manufacturer is a case-insensitive prefix of the folder name followed by a space, or it
  is the whole folder name up to case.\<close>

definition spec_mfr_match :: "string \<Rightarrow> string \<Rightarrow> bool" where
  "spec_mfr_match folder m \<longleftrightarrow>
     prefix (lower m @ '' '') (lower folder) \<or> lower folder = lower m"

section \<open>Example inputs\<close>

text \<open>Two headphone folders with a one-line profile each, the entries they give under a
  source and a form factor, and three result trees built from them.\<close>

definition folder_k702 :: "string \<times> node" where
  "folder_k702 =
     (''AKG K702'',
      Dir [(''AKG K702 ParametricEQ.txt'', File (Some ''Filter 1: ON PK Fc 50''))])"

definition folder_k240 :: "string \<times> node" where
  "folder_k240 =
     (''akg k240'',
      Dir [(''akg k240 ParametricEQ.txt'', File (Some ''Filter 1: ON HS Gain -2''))])"

definition entry_k702 :: "string \<Rightarrow> string \<Rightarrow> entry" where
  "entry_k702 sn ff =
     \<lparr>entry_id = sn @ ''/AKG K702'', manufacturer = ''AKG'', model = ''K702'', source = sn,
      formFactor = ff, entry_preamp = 0,
      entry_filters = [\<lparr>ftype = ''peaking'', freq = 50, q = 707 / 1000, gain = 0\<rparr>]\<rparr>"

definition entry_k240 :: "string \<Rightarrow> string \<Rightarrow> entry" where
  "entry_k240 sn ff =
     \<lparr>entry_id = sn @ ''/akg k240'', manufacturer = ''AKG'', model = ''k240'', source = sn,
      formFactor = ff, entry_preamp = 0,
      entry_filters = [\<lparr>ftype = ''highShelf'', freq = 1000, q = 707 / 1000, gain = - 2\<rparr>]\<rparr>"

definition tree_one_source :: node where
  "tree_one_source =
     Dir [(''oratory1990'', Dir [(''over-ear'', Dir [folder_k702, folder_k240])])]"

definition tree_two_sources :: node where
  "tree_two_sources =
     Dir [(''crinacle'', Dir [(''over-ear'', Dir [folder_k702])]),
          (''oratory1990'', Dir [(''over-ear'', Dir [folder_k702])])]"

definition tree_bad_q :: node where
  "tree_bad_q =
     Dir [(''oratory1990'',
           Dir [(''over-ear'',
                 Dir [(''AKG K702'',
                       Dir [(''AKG K702 ParametricEQ.txt'',
                             File (Some ''Filter 1: ON PK Fc 100 Hz Gain 1 dB Q .''))])])])]"

text \<open>The first tree with its two folders listed in the other order; and one source that
  holds the same folder under two targets, listed in the one order and in the other.\<close>

definition tree_one_source_swapped :: node where
  "tree_one_source_swapped =
     Dir [(''oratory1990'', Dir [(''over-ear'', Dir [folder_k240, folder_k702])])]"



section \<open>Properties of the name classifier\<close>

lemma mfr_hit_iff: "mfr_hit folder m \<longleftrightarrow> spec_mfr_match folder m"
  by (auto simp: mfr_hit_def spec_mfr_match_def dest: append_prefixD)

lemma scan_first_hit:
  "i < length ms \<Longrightarrow> mfr_hit folder (ms ! i) \<Longrightarrow> \<forall>j<i. \<not> mfr_hit folder (ms ! j) \<Longrightarrow>
   scan_manufacturers ms folder =
     (ms ! i, if strip (drop (length (ms ! i)) folder) \<noteq> []
              then strip (drop (length (ms ! i)) folder) else folder)"
proof (induction ms arbitrary: i)
  case Nil
  then show ?case by simp
next
  case (Cons m ms)
  show ?case
  proof (cases i)
    case 0
    with Cons.prems show ?thesis by (simp add: Let_def)
  next
    case (Suc k)
    with Cons.prems have "\<not> mfr_hit folder m" by auto
    moreover from Suc Cons.prems have "k < length ms" "mfr_hit folder (ms ! k)"
      "\<forall>j<k. \<not> mfr_hit folder (ms ! j)" by auto
    ultimately show ?thesis using Cons.IH[of k] Suc by simp
  qed
qed

lemma scan_no_hit:
  "\<forall>m\<in>set ms. \<not> mfr_hit folder m \<Longrightarrow>
   scan_manufacturers ms folder = scan_manufacturers [] folder"
  by (induction ms) auto

lemma split1_found:
  assumes "sep \<in> set s"
  shows "\<exists>tok rest. s = tok @ sep # rest \<and> sep \<notin> set tok \<and> split1 sep s = [tok, rest]"
proof -
  let ?t = "takeWhile (\<lambda>c. c \<noteq> sep) s" and ?d = "dropWhile (\<lambda>c. c \<noteq> sep) s"
  from assms have "?d \<noteq> []" by (auto simp: dropWhile_eq_Nil_conv)
  then obtain c rest where d: "?d = c # rest" by (cases ?d) auto
  have "c = sep" using hd_dropWhile[of "\<lambda>c. c \<noteq> sep" s] d by auto
  with d have "s = ?t @ sep # rest"
    using takeWhile_dropWhile_id[of "\<lambda>c. c \<noteq> sep" s] by simp
  moreover have "sep \<notin> set ?t" by (auto dest: set_takeWhileD)
  moreover have "split1 sep s = [?t, rest]" using d by (simp add: split1_def)
  ultimately show ?thesis by blast
qed

lemma split1_none:
  assumes "sep \<notin> set s"
  shows "split1 sep s = [s]"
proof -
  from assms have "\<forall>x\<in>set s. x \<noteq> sep" by blast
  then have "dropWhile (\<lambda>c. c \<noteq> sep) s = []" by simp
  then show ?thesis unfolding split1_def by (simp only: list.case)
qed

lemma fallback_space:
  assumes "CHR '' '' \<in> set folder"
  shows "\<exists>tok rest. folder = tok @ '' '' @ rest \<and> CHR '' '' \<notin> set tok \<and>
           scan_manufacturers [] folder = (tok, rest)"
proof -
  from split1_found[OF assms] obtain tok rest where
    "folder = tok @ CHR '' '' # rest" "CHR '' '' \<notin> set tok"
    "split1 CHR '' '' folder = [tok, rest]" by blast
  then show ?thesis by (intro exI[of _ tok] exI[of _ rest]) simp
qed

lemma fallback_no_space:
  "CHR '' '' \<notin> set folder \<Longrightarrow> scan_manufacturers [] folder = (folder, [])"
  by (simp add: split1_none)

lemma first_token_unique:
  assumes "s = tok @ sep # rest" "sep \<notin> set tok"
  shows "tok = takeWhile (\<lambda>c. c \<noteq> sep) s" "rest = tl (dropWhile (\<lambda>c. c \<noteq> sep) s)"
proof -
  from assms(2) have all: "\<forall>x\<in>set tok. x \<noteq> sep" by blast
  then show "tok = takeWhile (\<lambda>c. c \<noteq> sep) s"
    unfolding assms(1) by (simp add: takeWhile_append2)
  from all show "rest = tl (dropWhile (\<lambda>c. c \<noteq> sep) s)"
    unfolding assms(1) by (simp add: dropWhile_append2)
qed

text \<open>
  C6.  A manufacturer of the static list matches a folder name only as a case-insensitive
  prefix followed by a space, or as the whole name.  The first manufacturer of the list
  that matches is returned, with the trimmed text after it as the model, or the whole
  folder name when that text is empty.  When no manufacturer matches, the name is split at
  its first space into the token before it and the text after it; a name without a space
  is returned whole, with the empty model.  \<^verbatim>\<open>HIFIMAN HE400se\<close> gives
  \<^verbatim>\<open>HIFIMAN\<close> and \<^verbatim>\<open>HE400se\<close>, \<^verbatim>\<open>Unknown Thing Model X\<close> gives \<^verbatim>\<open>Unknown\<close> and
  \<^verbatim>\<open>Thing Model X\<close>.
\<close>

theorem parse_headphone_name_rule:
  "(\<forall>i<length manufacturers.
      spec_mfr_match folder (manufacturers ! i) \<and>
      (\<forall>j<i. \<not> spec_mfr_match folder (manufacturers ! j)) \<longrightarrow>
      parse_headphone_name folder =
        (manufacturers ! i,
         let rest = strip (drop (length (manufacturers ! i)) folder)
         in if rest = [] then folder else rest)) \<and>
   ((\<forall>m\<in>set manufacturers. \<not> spec_mfr_match folder m) \<longrightarrow>
      (CHR '' '' \<in> set folder \<longrightarrow>
         (\<exists>tok rest. folder = tok @ '' '' @ rest \<and> CHR '' '' \<notin> set tok \<and>
            parse_headphone_name folder = (tok, rest))) \<and>
      (CHR '' '' \<notin> set folder \<longrightarrow> parse_headphone_name folder = (folder, []))) \<and>
   parse_headphone_name ''HIFIMAN HE400se'' = (''HIFIMAN'', ''HE400se'') \<and>
   parse_headphone_name ''Unknown Thing Model X'' = (''Unknown'', ''Thing Model X'')"
proof (intro conjI allI impI)
  fix i
  assume "i < length manufacturers"
    and "spec_mfr_match folder (manufacturers ! i) \<and>
         (\<forall>j<i. \<not> spec_mfr_match folder (manufacturers ! j))"
  then show "parse_headphone_name folder =
        (manufacturers ! i,
         let rest = strip (drop (length (manufacturers ! i)) folder)
         in if rest = [] then folder else rest)"
    using scan_first_hit[of i manufacturers folder]
    by (simp add: parse_headphone_name_def mfr_hit_iff Let_def)
next
  assume none: "\<forall>m\<in>set manufacturers. \<not> spec_mfr_match folder m"
    and sp: "CHR '' '' \<in> set folder"
  from none have "parse_headphone_name folder = scan_manufacturers [] folder"
    unfolding parse_headphone_name_def by (intro scan_no_hit) (simp add: mfr_hit_iff)
  with fallback_space[OF sp]
  show "\<exists>tok rest. folder = tok @ '' '' @ rest \<and> CHR '' '' \<notin> set tok \<and>
            parse_headphone_name folder = (tok, rest)"
    by simp
next
  assume none: "\<forall>m\<in>set manufacturers. \<not> spec_mfr_match folder m"
    and sp: "CHR '' '' \<notin> set folder"
  from none have "parse_headphone_name folder = scan_manufacturers [] folder"
    unfolding parse_headphone_name_def by (intro scan_no_hit) (simp add: mfr_hit_iff)
  with fallback_no_space[OF sp]
  show "parse_headphone_name folder = (folder, [])"
    by simp
next
  show "parse_headphone_name ''HIFIMAN HE400se'' = (''HIFIMAN'', ''HE400se'')"
    by code_simp
next
  show "parse_headphone_name ''Unknown Thing Model X'' = (''Unknown'', ''Thing Model X'')"
    by code_simp
qed

theorem parse_headphone_name_rule_witness:
  "2 < length manufacturers \<and>
   spec_mfr_match ''audeze  LCD-2 '' (manufacturers ! 2) \<and>
   list_all (\<lambda>m. \<not> spec_mfr_match ''audeze  LCD-2 '' m) (take 2 manufacturers) \<and>
   parse_headphone_name ''audeze  LCD-2 '' = (''Audeze'', ''LCD-2'') \<and>
   list_all (\<lambda>m. \<not> spec_mfr_match ''AKGSomething X'' m) manufacturers \<and>
   CHR '' '' \<in> set ''AKGSomething X'' \<and>
   parse_headphone_name ''AKGSomething X'' = (''AKGSomething'', ''X'') \<and>
   list_all (\<lambda>m. \<not> spec_mfr_match ''Stax-L300'' m) manufacturers \<and>
   CHR '' '' \<notin> set ''Stax-L300'' \<and>
   parse_headphone_name ''Stax-L300'' = (''Stax-L300'', [])"
proof -
  note ev = spec_mfr_match_def lower_def lower_char_def ascii_lowercase_def
    ascii_uppercase_def
  have len: "2 < length manufacturers" by (simp add: manufacturers_def)
  have m2: "manufacturers ! 2 = ''Audeze''" by (simp add: manufacturers_def)
  have t2: "take 2 manufacturers = [''AKG'', ''Audio-Technica'']"
    by (simp add: manufacturers_def)
  have hit: "spec_mfr_match ''audeze  LCD-2 '' (manufacturers ! 2)"
    unfolding m2 by (simp add: ev)
  have before: "list_all (\<lambda>m. \<not> spec_mfr_match ''audeze  LCD-2 '' m) (take 2 manufacturers)"
    unfolding t2 by (simp add: ev)
  from before len have before': "\<forall>j<2. \<not> spec_mfr_match ''audeze  LCD-2 '' (manufacturers ! j)"
    by (simp add: list_all_length)
  have s0: "strip ''  LCD-2 '' = ''LCD-2''" by (simp add: strip_def isspace_def)
  have r0: "parse_headphone_name ''audeze  LCD-2 '' = (''Audeze'', ''LCD-2'')"
    using parse_headphone_name_rule[of "''audeze  LCD-2 ''", THEN conjunct1, rule_format, of 2]
      len hit before'
    by (simp add: m2 s0)
  have h1: "list_all (\<lambda>m. \<not> spec_mfr_match ''AKGSomething X'' m) manufacturers"
    by code_simp
  then have "\<forall>m\<in>set manufacturers. \<not> spec_mfr_match ''AKGSomething X'' m"
    by (simp add: list_all_iff)
  then have "\<exists>tok rest. ''AKGSomething X'' = tok @ '' '' @ rest \<and> CHR '' '' \<notin> set tok \<and>
          parse_headphone_name ''AKGSomething X'' = (tok, rest)"
    using parse_headphone_name_rule[of "''AKGSomething X''"] by simp
  then obtain tok rest where t: "''AKGSomething X'' = tok @ CHR '' '' # rest"
      "CHR '' '' \<notin> set tok" "parse_headphone_name ''AKGSomething X'' = (tok, rest)"
    by auto
  from first_token_unique[OF t(1,2)] have "tok = ''AKGSomething''" "rest = ''X''"
    by simp_all
  with t(3)
  have r1: "parse_headphone_name ''AKGSomething X'' = (''AKGSomething'', ''X'')" by simp
  have h2: "list_all (\<lambda>m. \<not> spec_mfr_match ''Stax-L300'' m) manufacturers"
    by code_simp
  then have "\<forall>m\<in>set manufacturers. \<not> spec_mfr_match ''Stax-L300'' m"
    by (simp add: list_all_iff)
  then have r2: "parse_headphone_name ''Stax-L300'' = (''Stax-L300'', [])"
    using parse_headphone_name_rule[of "''Stax-L300''"] by simp
  show ?thesis using len hit before r0 h1 r1 h2 r2 by simp
qed

section \<open>Properties of strings, numbers and patterns\<close>

lemma contains_iff_sublist: "contains sub s \<longleftrightarrow> sublist sub s"
  by (induction s) (auto simp: sublist_Cons_right)

lemma sublist_map_left: "sublist t s \<Longrightarrow> sublist (map f t) (map f s)"
  unfolding sublist_def by (metis map_append)

lemma contains_upper_iff: "contains tok (upper line) \<longleftrightarrow> occurs_ci tok line"
  unfolding contains_iff_sublist occurs_ci_def upper_def
  by (auto dest: sublist_map_rightE intro: sublist_map_left)

lemma sublist_strip: "sublist (strip s) s"
proof -
  have "suffix (dropWhile isspace (rev (dropWhile isspace s))) (rev (dropWhile isspace s))"
    by (rule suffix_dropWhile)
  then have "prefix (strip s) (dropWhile isspace s)"
    by (simp add: suffix_to_prefix strip_def)
  then obtain ss where "dropWhile isspace s = strip s @ ss" by (auto simp: prefix_def)
  moreover have "s = takeWhile isspace s @ dropWhile isspace s" by simp
  ultimately have "s = takeWhile isspace s @ strip s @ ss" by simp
  then show ?thesis unfolding sublist_def by blast
qed

lemma sublist_trans': "sublist a b \<Longrightarrow> sublist b c \<Longrightarrow> sublist a c"
  by (rule sublist_order.order_trans)

lemma occurs_ci_strip: "occurs_ci tok (strip s) \<Longrightarrow> occurs_ci tok s"
  unfolding occurs_ci_def using sublist_strip sublist_trans' by blast

lemma unsigned_float_nonneg: "unsigned_float s = Inr v \<Longrightarrow> 0 \<le> v"
  by (auto simp: unsigned_float_def Let_def split: list.splits if_splits)

lemma not_digit_dot: "\<not> isdigit CHR ''.''" and not_digit_minus: "\<not> isdigit CHR ''-''"
  by (simp_all add: isdigit_def)

lemma unsigned_float_digits:
  assumes "\<forall>x\<in>set D. isdigit x" "D \<noteq> []"
  shows "unsigned_float D = Inr (of_nat (digits_val D))"
proof -
  from assms(1) have tw: "takeWhile isdigit D = D" and dw: "dropWhile isdigit D = []"
    by simp_all
  show ?thesis unfolding unsigned_float_def tw dw Let_def using assms(2) by simp
qed

lemma unsigned_float_fraction:
  assumes "\<forall>x\<in>set D. isdigit x" "\<forall>x\<in>set F. isdigit x" "\<not> (D = [] \<and> F = [])"
  shows "unsigned_float (D @ CHR ''.'' # F) =
           Inr (of_nat (digits_val D) + of_nat (digits_val F) / 10 ^ length F)"
proof -
  from assms(1) have tw: "takeWhile isdigit (D @ CHR ''.'' # F) = D"
    and dw: "dropWhile isdigit (D @ CHR ''.'' # F) = CHR ''.'' # F"
    by (simp_all add: takeWhile_append2 dropWhile_append2 not_digit_dot)
  from assms(2) have "list_all isdigit F" by (simp add: list_all_iff)
  then show ?thesis unfolding unsigned_float_def tw dw Let_def using assms(3) by simp
qed

lemma match_unsigned_shape:
  assumes "match_unsigned s = Some g"
  shows "\<exists>d ds. g = d # ds \<and> isdigit d \<and> (\<exists>v. unsigned_float g = Inr v)"
proof -
  from assms obtain d ds where tw: "takeWhile isdigit s = d # ds"
    by (auto simp: match_unsigned_def split: list.splits)
  have dig: "\<forall>x\<in>set (d # ds). isdigit x"
    using set_takeWhileD[of _ isdigit s] tw by auto
  from assms tw consider (int) "g = d # ds"
    | (frac) r where "g = (d # ds) @ CHR ''.'' # takeWhile isdigit r"
    by (auto simp: match_unsigned_def split: list.splits if_splits)
  then show ?thesis
  proof cases
    case int
    with unsigned_float_digits[OF dig] dig show ?thesis by simp
  next
    case (frac r)
    have "\<forall>x\<in>set (takeWhile isdigit r). isdigit x" by (auto dest: set_takeWhileD)
    from unsigned_float_fraction[OF dig this] frac dig show ?thesis by simp
  qed
qed

lemma match_signed_float:
  assumes "match_signed s = Some g"
  shows "\<exists>v. py_float g = Inr v"
proof (cases s)
  case Nil
  with assms show ?thesis by (simp add: match_signed_def)
next
  case (Cons c r)
  show ?thesis
  proof (cases "c = CHR ''-''")
    case True
    with assms Cons obtain g' where "g = c # g'" "match_unsigned r = Some g'"
      by (auto simp: match_signed_def)
    with True match_unsigned_shape[of r g'] show ?thesis by (auto simp: py_float_def)
  next
    case False
    with assms Cons have "match_unsigned s = Some g" by (simp add: match_signed_def)
    from match_unsigned_shape[OF this] obtain d ds v where
      "g = d # ds" "isdigit d" "unsigned_float g = Inr v" by blast
    then show ?thesis using not_digit_minus by (auto simp: py_float_def)
  qed
qed

lemma re_search_Some: "re_search m s = Some g \<Longrightarrow> \<exists>t. suffix t s \<and> m t = Some g"
  by (induction s) (auto simp: suffix_Cons split: option.splits)

lemma py_float_nonneg:
  assumes "py_float g = Inr v" "g = d # ds" "d \<noteq> CHR ''-''"
  shows "0 \<le> v"
  using assms unsigned_float_nonneg[of g v] by (simp add: py_float_def)

lemma lower_char_cases:
  "lower_char c = CHR ''f'' \<Longrightarrow> upper_char c = CHR ''F''"
  "lower_char c = CHR ''c'' \<Longrightarrow> upper_char c = CHR ''C''"
  "lower_char c = CHR ''g'' \<Longrightarrow> upper_char c = CHR ''G''"
  "lower_char c = CHR ''a'' \<Longrightarrow> upper_char c = CHR ''A''"
  "lower_char c = CHR ''i'' \<Longrightarrow> upper_char c = CHR ''I''"
  "lower_char c = CHR ''n'' \<Longrightarrow> upper_char c = CHR ''N''"
  "lower_char c = CHR ''q'' \<Longrightarrow> upper_char c = CHR ''Q''"
  by (auto simp: lower_char_def upper_char_def ascii_lowercase_def ascii_uppercase_def
      split: if_splits)

lemma lower_char_consts:
  "lower_char CHR ''F'' = CHR ''f''" "lower_char CHR ''c'' = CHR ''c''"
  "lower_char CHR ''G'' = CHR ''g''" "lower_char CHR ''a'' = CHR ''a''"
  "lower_char CHR ''i'' = CHR ''i''" "lower_char CHR ''n'' = CHR ''n''"
  "lower_char CHR ''Q'' = CHR ''q''"
  by (simp_all add: lower_char_def ascii_lowercase_def ascii_uppercase_def)

lemma after_spaces_Some:
  "after_spaces m s = Some g \<Longrightarrow> \<exists>w r. s = w # r \<and> isspace w \<and> m (dropWhile isspace s) = Some g"
  by (cases s) (auto simp: after_spaces_def split: if_splits)

lemma match_fc_Some:
  assumes "match_fc t = Some g"
  shows "\<exists>a b w r. t = a # b # w # r \<and> upper [a, b] = ''FC'' \<and> isspace w \<and>
           match_unsigned (dropWhile isspace (w # r)) = Some g"
proof -
  from assms obtain a b rest where t: "t = a # b # rest"
    and ab: "lower_char a = CHR ''f''" "lower_char b = CHR ''c''"
    and m: "after_spaces match_unsigned rest = Some g"
    unfolding match_fc_def
    by (cases t; cases "tl t") (auto simp: lower_char_consts split: if_splits)
  from after_spaces_Some[OF m] obtain w r where "rest = w # r" "isspace w"
    "match_unsigned (dropWhile isspace rest) = Some g" by blast
  with t ab show ?thesis by (auto simp: upper_def lower_char_cases)
qed

lemma match_gain_Some:
  assumes "match_gain t = Some g"
  shows "\<exists>a b c d w r. t = a # b # c # d # w # r \<and> upper [a, b, c, d] = ''GAIN'' \<and> isspace w \<and>
           match_signed (dropWhile isspace (w # r)) = Some g"
proof -
  from assms obtain a b c d rest where t: "t = a # b # c # d # rest"
    and ab: "lower_char a = CHR ''g''" "lower_char b = CHR ''a''"
      "lower_char c = CHR ''i''" "lower_char d = CHR ''n''"
    and m: "after_spaces match_signed rest = Some g"
    unfolding match_gain_def
    by (cases t; cases "tl t"; cases "tl (tl t)"; cases "tl (tl (tl t))")
       (auto simp: lower_char_consts split: if_splits)
  from after_spaces_Some[OF m] obtain w r where "rest = w # r" "isspace w"
    "match_signed (dropWhile isspace rest) = Some g" by blast
  with t ab show ?thesis by (auto simp: upper_def lower_char_cases)
qed

lemma match_q_Some:
  assumes "match_q t = Some g"
  shows "\<exists>w a w' r. t = w # a # w' # r \<and> isspace w \<and> upper [a] = ''Q'' \<and> isspace w' \<and>
           match_digits_dots (dropWhile isspace (w' # r)) = Some g"
proof -
  from assms obtain w a rest where t: "t = w # a # rest" and w: "isspace w"
    and a: "lower_char a = CHR ''q''"
    and m: "after_spaces match_digits_dots rest = Some g"
    unfolding match_q_def
    by (cases t; cases "tl t") (auto simp: lower_char_consts split: if_splits)
  from after_spaces_Some[OF m] obtain w' r where "rest = w' # r" "isspace w'"
    "match_digits_dots (dropWhile isspace rest) = Some g" by blast
  with t w a show ?thesis by (auto simp: upper_def lower_char_cases)
qed

lemma suffix_block_sublist: "suffix (b @ r) s \<Longrightarrow> sublist b s"
  by (auto simp: suffix_def sublist_def)

lemma fc_token_found: "re_search match_fc line = Some g \<Longrightarrow> has_fc_token line"
proof -
  assume "re_search match_fc line = Some g"
  from re_search_Some[OF this] obtain t where t: "suffix t line" "match_fc t = Some g" by blast
  from match_fc_Some[OF t(2)] obtain a b w r where
    s: "t = a # b # w # r" "upper [a, b] = ''FC''" "isspace w" by blast
  from t(1) s(1) have "sublist ([a, b] @ [w]) line"
    using suffix_block_sublist[of "[a, b, w]" r line] by simp
  with s show ?thesis unfolding has_fc_token_def by blast
qed

lemma gain_token_found: "re_search match_gain line = Some g \<Longrightarrow> has_gain_token line"
proof -
  assume "re_search match_gain line = Some g"
  from re_search_Some[OF this] obtain t where t: "suffix t line" "match_gain t = Some g"
    by blast
  from match_gain_Some[OF t(2)] obtain a b c d w r where
    s: "t = a # b # c # d # w # r" "upper [a, b, c, d] = ''GAIN''" "isspace w" by blast
  from t(1) s(1) have "sublist ([a, b, c, d] @ [w]) line"
    using suffix_block_sublist[of "[a, b, c, d, w]" r line] by simp
  with s show ?thesis unfolding has_gain_token_def by blast
qed

lemma q_token_found: "re_search match_q line = Some g \<Longrightarrow> has_q_token line"
proof -
  assume "re_search match_q line = Some g"
  from re_search_Some[OF this] obtain t where t: "suffix t line" "match_q t = Some g" by blast
  from match_q_Some[OF t(2)] obtain w a w' r where
    s: "t = w # a # w' # r" "isspace w" "upper [a] = ''Q''" "isspace w'" by blast
  from t(1) s(1) have "sublist (w # [a] @ [w']) line"
    using suffix_block_sublist[of "[w, a, w']" r line] by simp
  with s show ?thesis unfolding has_q_token_def by blast
qed

lemma fc_capture_nonneg:
  assumes "re_search match_fc line = Some g" "py_float g = Inr v"
  shows "0 \<le> v"
proof -
  from re_search_Some[OF assms(1)] obtain t where "match_fc t = Some g" by blast
  from match_fc_Some[OF this] obtain u where "match_unsigned u = Some g" by blast
  from match_unsigned_shape[OF this] obtain d ds where "g = d # ds" "isdigit d" by blast
  with assms(2) show ?thesis using py_float_nonneg[of g v d ds] not_digit_minus by auto
qed

lemma q_capture_nonneg:
  assumes "re_search match_q line = Some g" "py_float g = Inr v"
  shows "0 \<le> v"
proof -
  from re_search_Some[OF assms(1)] obtain t where "match_q t = Some g" by blast
  from match_q_Some[OF this] obtain u where "match_digits_dots u = Some g" by blast
  then have tw: "takeWhile (\<lambda>c. isdigit c \<or> c = CHR ''.'') u = g" "g \<noteq> []"
    by (auto simp: match_digits_dots_def split: list.splits)
  then obtain d ds where g: "g = d # ds" by (cases g) auto
  have "d \<in> set (takeWhile (\<lambda>c. isdigit c \<or> c = CHR ''.'') u)" using tw(1) g by simp
  then have "isdigit d \<or> d = CHR ''.''" by (auto dest: set_takeWhileD)
  then have "d \<noteq> CHR ''-''" using not_digit_minus by auto
  with assms(2) g show ?thesis using py_float_nonneg[of g v d ds] by simp
qed

section \<open>Properties of the line parser\<close>

lemma detect_first:
  "i < length tbl \<Longrightarrow> contains ('' '' @ fst (tbl ! i) @ '' '') u \<Longrightarrow>
   \<forall>j<i. \<not> contains ('' '' @ fst (tbl ! j) @ '' '') u \<Longrightarrow>
   detect_filter_type tbl u = Some (snd (tbl ! i))"
proof (induction tbl arbitrary: i)
  case Nil
  then show ?case by simp
next
  case (Cons p tbl)
  obtain code ty where p: "p = (code, ty)" by (cases p)
  show ?case
  proof (cases i)
    case 0
    with Cons.prems p show ?thesis by simp
  next
    case (Suc k)
    with Cons.prems p have "\<not> contains ('' '' @ code @ '' '') u" by fastforce
    moreover from Suc Cons.prems have "k < length tbl"
      "contains ('' '' @ fst (tbl ! k) @ '' '') u"
      "\<forall>j<k. \<not> contains ('' '' @ fst (tbl ! j) @ '' '') u" by auto
    ultimately show ?thesis using Cons.IH[of k] Suc p by simp
  qed
qed

lemma detect_none:
  "\<forall>i<length tbl. \<not> contains ('' '' @ fst (tbl ! i) @ '' '') u \<Longrightarrow>
   detect_filter_type tbl u = None"
proof (induction tbl)
  case Nil
  then show ?case by simp
next
  case (Cons p tbl)
  obtain code ty where p: "p = (code, ty)" by (cases p)
  from Cons.prems have "\<not> contains ('' '' @ fst ((p # tbl) ! 0) @ '' '') u" by blast
  moreover have "\<forall>i<length tbl. \<not> contains ('' '' @ fst (tbl ! i) @ '' '') u"
    using Cons.prems by fastforce
  ultimately show ?case using Cons.IH p by simp
qed

lemma detect_in_table:
  "detect_filter_type tbl u = Some ty \<Longrightarrow> ty \<in> snd ` set tbl"
  by (induction tbl u rule: detect_filter_type.induct) (auto split: if_splits)

lemma filter_type_nonempty:
  "detect_filter_type FILTER_TYPES u = Some ty \<Longrightarrow> ty \<noteq> []"
  by (drule detect_in_table) (auto simp: FILTER_TYPES_def)

lemma fc_field_ok: "\<exists>v. field_value match_fc dflt line = Inr v"
proof (cases "re_search match_fc line")
  case None
  then show ?thesis by (simp add: field_value_def)
next
  case (Some g)
  from re_search_Some[OF Some] obtain t where "match_fc t = Some g" by blast
  from match_fc_Some[OF this] obtain u where "match_unsigned u = Some g" by blast
  from match_unsigned_shape[OF this] obtain d ds v where
    "g = d # ds" "isdigit d" "unsigned_float g = Inr v" by blast
  then have "py_float g = Inr v" using not_digit_minus by (auto simp: py_float_def)
  with Some show ?thesis by (simp add: field_value_def)
qed

lemma gain_field_ok: "\<exists>v. field_value match_gain dflt line = Inr v"
proof (cases "re_search match_gain line")
  case None
  then show ?thesis by (simp add: field_value_def)
next
  case (Some g)
  from re_search_Some[OF Some] obtain t where "match_gain t = Some g" by blast
  from match_gain_Some[OF this] obtain u where "match_signed u = Some g" by blast
  from match_signed_float[OF this] Some show ?thesis by (simp add: field_value_def)
qed

lemma field_default:
  "re_search m line = None \<Longrightarrow> field_value m dflt line = Inr dflt"
  by (simp add: field_value_def)

lemma parse_line_eligible:
  assumes "eligible line"
  shows "parse_line line st =
    (case detect_filter_type FILTER_TYPES (upper line) of
       None \<Rightarrow> Inr st
     | Some ty \<Rightarrow>
         (case field_value match_fc 1000 line of
            Inl e \<Rightarrow> Inl e
          | Inr fr \<Rightarrow>
              (case field_value match_gain 0 line of
                 Inl e \<Rightarrow> Inl e
               | Inr g \<Rightarrow>
                   (case field_value match_q (707 / 1000) line of
                      Inl e \<Rightarrow> Inl e
                    | Inr qv \<Rightarrow>
                        Inr (st\<lparr>filters := filters st @
                               [\<lparr>ftype = ty, freq = fr, q = qv, gain = g\<rparr>]\<rparr>)))))"
  using assms filter_type_nonempty[of "upper line"]
  by (auto simp: parse_line_def eligible_def contains_upper_iff Let_def split: option.splits)

lemma parse_line_not_eligible:
  assumes "\<not> eligible line"
  shows "parse_line line st = Inr st \<or> (\<exists>v. parse_line line st = Inr (st\<lparr>preamp := v\<rparr>))"
proof (cases "prefix ''preamp:'' (lower line)")
  case True
  show ?thesis
  proof (cases "re_search match_signed line")
    case None
    with True show ?thesis by (simp add: parse_line_def)
  next
    case (Some g)
    from re_search_Some[OF Some] obtain t where "match_signed t = Some g" by blast
    from match_signed_float[OF this] obtain v where "py_float g = Inr v" by blast
    with True Some have "parse_line line st = Inr (st\<lparr>preamp := v\<rparr>)"
      by (simp add: parse_line_def)
    then show ?thesis by blast
  qed
next
  case False
  with assms show ?thesis
    by (auto simp: parse_line_def eligible_def contains_upper_iff Let_def)
qed

lemma sublist_appendD1: "sublist (a @ b) s \<Longrightarrow> sublist a s"
  unfolding sublist_def by (metis append.assoc)

lemma sublist_ConsD: "sublist (w # a) s \<Longrightarrow> sublist a s"
  unfolding sublist_def by (metis append.assoc append_Cons append_Nil)

lemma no_fc_token: "\<not> contains ''FC'' (upper line) \<Longrightarrow> \<not> has_fc_token line"
  unfolding contains_upper_iff has_fc_token_def occurs_ci_def
  by (blast dest: sublist_appendD1)

lemma no_gain_token: "\<not> contains ''GAIN'' (upper line) \<Longrightarrow> \<not> has_gain_token line"
  unfolding contains_upper_iff has_gain_token_def occurs_ci_def
  by (blast dest: sublist_appendD1)

lemma no_q_token: "\<not> contains ''Q'' (upper line) \<Longrightarrow> \<not> has_q_token line"
  unfolding contains_upper_iff has_q_token_def occurs_ci_def
  by (blast dest: sublist_appendD1 sublist_ConsD)

lemma fc_field_nonneg: "field_value match_fc 1000 line = Inr v \<Longrightarrow> 0 \<le> v"
  using fc_capture_nonneg[of line _ v]
  by (auto simp: field_value_def split: option.splits)

lemma q_field_nonneg: "field_value match_q (707 / 1000) line = Inr v \<Longrightarrow> 0 \<le> v"
  using q_capture_nonneg[of line _ v]
  by (auto simp: field_value_def split: option.splits)

lemma fold_err_invariant:
  assumes step: "\<And>x s s'. f x s = Inr s' \<Longrightarrow> P s \<Longrightarrow> P s'"
  shows "P st \<Longrightarrow> fold_err f xs st = Inr st' \<Longrightarrow> P st'"
proof (induction xs arbitrary: st)
  case Nil
  then show ?case by simp
next
  case (Cons x xs)
  from Cons.prems(2) obtain s1 where s1: "f x st = Inr s1" "fold_err f xs s1 = Inr st'"
    by (auto split: sum.splits)
  from step[OF s1(1) Cons.prems(1)] have "P s1" .
  from Cons.IH[OF this s1(2)] show ?case .
qed

lemma parse_line_appended:
  assumes "parse_line line st = Inr st'"
  shows "st' = st \<or> (\<exists>v. st' = st\<lparr>preamp := v\<rparr>) \<or>
         (\<exists>ty fr g qv. eligible line \<and>
            detect_filter_type FILTER_TYPES (upper line) = Some ty \<and>
            field_value match_fc 1000 line = Inr fr \<and>
            field_value match_gain 0 line = Inr g \<and>
            field_value match_q (707 / 1000) line = Inr qv \<and>
            st' = st\<lparr>filters := filters st @ [\<lparr>ftype = ty, freq = fr, q = qv, gain = g\<rparr>]\<rparr>)"
proof (cases "eligible line")
  case False
  from parse_line_not_eligible[OF False, of st] assms show ?thesis by auto
next
  case True
  from assms show ?thesis
    unfolding parse_line_eligible[OF True] using True
    by (auto split: option.splits sum.splits)
qed

lemma parse_line_nonneg:
  assumes "parse_line line st = Inr st'" "nonneg_filters st"
  shows "nonneg_filters st'"
  using parse_line_appended[OF assms(1)] assms(2)
  by (auto simp: nonneg_filters_def dest: fc_field_nonneg q_field_nonneg)

lemma parse_profile_nonneg:
  assumes "parse_profile file = Inr (Some p)"
  shows "nonneg_filters p"
proof -
  from assms obtain content where
    f: "fold_err parse_raw_line (split_on CHR 0x0A content) \<lparr>preamp = 0, filters = []\<rparr> = Inr p"
    by (auto simp: parse_profile_def split: option.splits sum.splits)
  have "nonneg_filters \<lparr>preamp = 0, filters = []\<rparr>" by (simp add: nonneg_filters_def)
  from fold_err_invariant[of parse_raw_line nonneg_filters, OF _ this f]
  show ?thesis by (auto simp: parse_raw_line_def dest: parse_line_nonneg)
qed

lemmas str_ev = upper_def upper_char_def lower_def lower_char_def ascii_lowercase_def
  ascii_uppercase_def isspace_def isdigit_def strip_def
lemmas re_ev = match_fc_def match_gain_def match_q_def after_spaces_def
  match_digits_dots_def match_signed_def match_unsigned_def py_float_def unsigned_float_def
  digits_val_def digit_val_def field_value_def

text \<open>
  C8.  A line that does not contain \<^verbatim>\<open> ON \<close> between spaces, in any case, gives no
  filter record: the line parser returns without an error and leaves the list of filters
  as it was, on the trimmed line and on the line as read.
\<close>

theorem no_on_no_filter:
  "(\<not> occurs_ci '' ON '' line \<longrightarrow>
      (\<exists>st'. parse_line line st = Inr st' \<and> filters st' = filters st)) \<and>
   (\<not> occurs_ci '' ON '' raw \<longrightarrow>
      (\<exists>st'. parse_raw_line raw st = Inr st' \<and> filters st' = filters st))"
proof -
  have a: "\<exists>st'. parse_line l st = Inr st' \<and> filters st' = filters st"
    if "\<not> occurs_ci '' ON '' l" for l
  proof -
    from that have "\<not> eligible l" by (simp add: eligible_def)
    from parse_line_not_eligible[OF this, of st] show ?thesis by auto
  qed
  have b: "\<not> occurs_ci '' ON '' (strip raw)" if "\<not> occurs_ci '' ON '' raw"
    using that occurs_ci_strip by blast
  from a[of line] a[OF b] show ?thesis by (simp add: parse_raw_line_def)
qed

theorem no_on_no_filter_witness:
  "\<not> occurs_ci '' ON '' ''Filter 2: OFF PK Fc 100 Hz Gain 1 dB Q 1'' \<and>
   (\<exists>st'. parse_line ''Filter 2: OFF PK Fc 100 Hz Gain 1 dB Q 1''
            \<lparr>preamp = 0, filters = []\<rparr> = Inr st' \<and> filters st' = []) \<and>
   \<not> occurs_ci '' ON '' ''  Filter 3: on'' \<and>
   (\<exists>st'. parse_raw_line ''  Filter 3: on'' \<lparr>preamp = 0, filters = []\<rparr> = Inr st' \<and>
      filters st' = [])"
proof -
  have h1: "\<not> occurs_ci '' ON '' ''Filter 2: OFF PK Fc 100 Hz Gain 1 dB Q 1''"
    unfolding contains_upper_iff[symmetric] by (simp add: str_ev)
  have h2: "\<not> occurs_ci '' ON '' ''  Filter 3: on''"
    unfolding contains_upper_iff[symmetric] by (simp add: str_ev)
  from h1 h2
    no_on_no_filter[of "''Filter 2: OFF PK Fc 100 Hz Gain 1 dB Q 1''"
      "\<lparr>preamp = 0, filters = []\<rparr>" "''  Filter 3: on''"]
  show ?thesis by simp
qed

text \<open>
  C4.  The codes are scanned in the order PK, PEQ, LSC, LSB, LS, HSC, HSB, HS, LP, LPQ, HP,
  HPQ, with PK and PEQ for peaking, LSC, LSB and LS for lowShelf, HSC, HSB and HS for
  highShelf, LP and LPQ for lowPass, HP and HPQ for highPass.  On an eligible filter line a
  code matches when it stands between two spaces in the upper-cased line; the first code
  of the table that matches gives the type of the filter that is appended, and a line on
  which no code matches gives no filter.
\<close>

theorem filter_type_detection:
  "FILTER_TYPES =
     [(''PK'', ''peaking''), (''PEQ'', ''peaking''),
      (''LSC'', ''lowShelf''), (''LSB'', ''lowShelf''), (''LS'', ''lowShelf''),
      (''HSC'', ''highShelf''), (''HSB'', ''highShelf''), (''HS'', ''highShelf''),
      (''LP'', ''lowPass''), (''LPQ'', ''lowPass''),
      (''HP'', ''highPass''), (''HPQ'', ''highPass'')] \<and>
   (eligible line \<longrightarrow>
      ((\<forall>i<length FILTER_TYPES.
          \<not> contains ('' '' @ fst (FILTER_TYPES ! i) @ '' '') (upper line)) \<longrightarrow>
       parse_line line st = Inr st) \<and>
      (\<forall>i<length FILTER_TYPES.
          contains ('' '' @ fst (FILTER_TYPES ! i) @ '' '') (upper line) \<and>
          (\<forall>j<i. \<not> contains ('' '' @ fst (FILTER_TYPES ! j) @ '' '') (upper line)) \<longrightarrow>
          detect_filter_type FILTER_TYPES (upper line) = Some (snd (FILTER_TYPES ! i)) \<and>
          (\<forall>st'. parse_line line st = Inr st' \<longrightarrow>
             (\<exists>f. st' = st\<lparr>filters := filters st @ [f]\<rparr> \<and>
                  ftype f = snd (FILTER_TYPES ! i)))))"
proof (intro conjI impI allI)
  show "FILTER_TYPES =
     [(''PK'', ''peaking''), (''PEQ'', ''peaking''),
      (''LSC'', ''lowShelf''), (''LSB'', ''lowShelf''), (''LS'', ''lowShelf''),
      (''HSC'', ''highShelf''), (''HSB'', ''highShelf''), (''HS'', ''highShelf''),
      (''LP'', ''lowPass''), (''LPQ'', ''lowPass''),
      (''HP'', ''highPass''), (''HPQ'', ''highPass'')]"
    by (simp add: FILTER_TYPES_def)
next
  assume el: "eligible line"
    and "\<forall>i<length FILTER_TYPES.
          \<not> contains ('' '' @ fst (FILTER_TYPES ! i) @ '' '') (upper line)"
  from detect_none[OF this(2)] show "parse_line line st = Inr st"
    by (simp add: parse_line_eligible[OF el])
next
  fix i
  assume el: "eligible line" and i: "i < length FILTER_TYPES"
    and hit: "contains ('' '' @ fst (FILTER_TYPES ! i) @ '' '') (upper line) \<and>
          (\<forall>j<i. \<not> contains ('' '' @ fst (FILTER_TYPES ! j) @ '' '') (upper line))"
  from detect_first[OF i] hit
  show d: "detect_filter_type FILTER_TYPES (upper line) = Some (snd (FILTER_TYPES ! i))"
    by blast
  fix st'
  assume "parse_line line st = Inr st'"
  then show "\<exists>f. st' = st\<lparr>filters := filters st @ [f]\<rparr> \<and> ftype f = snd (FILTER_TYPES ! i)"
    unfolding parse_line_eligible[OF el] d
    by (auto split: sum.splits)
qed

lemma codes_absent:
  "list_all (\<lambda>c. \<not> contains ('' '' @ c @ '' '') u) (take n (map fst tbl)) \<Longrightarrow> n \<le> length tbl \<Longrightarrow>
   \<forall>j<n. \<not> contains ('' '' @ fst (tbl ! j) @ '' '') u"
  by (simp add: list_all_length)

theorem filter_type_detection_witness:
  "eligible ''Filter 3: ON LS Fc 100'' \<and>
   4 < length FILTER_TYPES \<and>
   contains ('' '' @ fst (FILTER_TYPES ! 4) @ '' '') (upper ''Filter 3: ON LS Fc 100'') \<and>
   list_all (\<lambda>c. \<not> contains ('' '' @ c @ '' '') (upper ''Filter 3: ON LS Fc 100''))
     (take 4 (map fst FILTER_TYPES)) \<and>
   detect_filter_type FILTER_TYPES (upper ''Filter 3: ON LS Fc 100'') = Some ''lowShelf'' \<and>
   (\<exists>f. parse_line ''Filter 3: ON LS Fc 100'' \<lparr>preamp = 0, filters = []\<rparr> =
          Inr \<lparr>preamp = 0, filters = [f]\<rparr> \<and> ftype f = ''lowShelf'') \<and>
   eligible ''Filter 4: ON XX Fc 100'' \<and>
   list_all (\<lambda>c. \<not> contains ('' '' @ c @ '' '') (upper ''Filter 4: ON XX Fc 100''))
     (take 12 (map fst FILTER_TYPES)) \<and>
   parse_line ''Filter 4: ON XX Fc 100'' \<lparr>preamp = 0, filters = []\<rparr> =
     Inr \<lparr>preamp = 0, filters = []\<rparr>"
proof -
  let ?L = "''Filter 3: ON LS Fc 100''" and ?N = "''Filter 4: ON XX Fc 100''"
  let ?st = "\<lparr>preamp = 0, filters = []\<rparr>"
  have uL: "upper ?L = ''FILTER 3: ON LS FC 100''" by (simp add: str_ev)
  have uN: "upper ?N = ''FILTER 4: ON XX FC 100''" by (simp add: str_ev)
  have eL: "eligible ?L"
    unfolding eligible_def contains_upper_iff[symmetric] uL by (simp add: str_ev)
  have eN: "eligible ?N"
    unfolding eligible_def contains_upper_iff[symmetric] uN by (simp add: str_ev)
  have len: "4 < length FILTER_TYPES" "4 \<le> length FILTER_TYPES" "12 \<le> length FILTER_TYPES"
    "length FILTER_TYPES = 12"
    by (simp_all add: FILTER_TYPES_def)
  have hit: "contains ('' '' @ fst (FILTER_TYPES ! 4) @ '' '') (upper ?L)"
    unfolding uL by (simp add: FILTER_TYPES_def)
  have before: "list_all (\<lambda>c. \<not> contains ('' '' @ c @ '' '') (upper ?L))
     (take 4 (map fst FILTER_TYPES))"
    unfolding uL by (simp add: FILTER_TYPES_def)
  have none: "list_all (\<lambda>c. \<not> contains ('' '' @ c @ '' '') (upper ?N))
     (take 12 (map fst FILTER_TYPES))"
    unfolding uN by (simp add: FILTER_TYPES_def)
  have t4: "snd (FILTER_TYPES ! 4) = ''lowShelf''" by (simp add: FILTER_TYPES_def)
  note thmL = filter_type_detection[of ?L ?st, THEN conjunct2, rule_format, OF eL,
      THEN conjunct2, rule_format, OF len(1)]
  note thmN = filter_type_detection[of ?N ?st, THEN conjunct2, rule_format, OF eN,
      THEN conjunct1, rule_format]
  have hyp: "contains ('' '' @ fst (FILTER_TYPES ! 4) @ '' '') (upper ?L) \<and>
      (\<forall>j<4. \<not> contains ('' '' @ fst (FILTER_TYPES ! j) @ '' '') (upper ?L))"
    using hit codes_absent[OF before len(2)] by blast
  from thmL[OF hyp]
  have d: "detect_filter_type FILTER_TYPES (upper ?L) = Some ''lowShelf''"
    and r: "\<forall>st'. parse_line ?L ?st = Inr st' \<longrightarrow>
             (\<exists>f. st' = ?st\<lparr>filters := filters ?st @ [f]\<rparr> \<and> ftype f = ''lowShelf'')"
    by (simp_all add: t4)
  have fv: "field_value match_fc 1000 ?L = Inr 100" "field_value match_gain 0 ?L = Inr 0"
    "field_value match_q (707 / 1000) ?L = Inr (707 / 1000)"
    by (simp_all add: re_ev str_ev)
  define st' where "st' = \<lparr>preamp = 0, filters =
    [\<lparr>ftype = ''lowShelf'', freq = 100, q = 707 / 1000, gain = 0\<rparr>]\<rparr>"
  have st': "parse_line ?L ?st = Inr st'"
    by (simp add: parse_line_eligible[OF eL] d fv st'_def)
  with r obtain f where "st' = ?st\<lparr>filters := filters ?st @ [f]\<rparr>" "ftype f = ''lowShelf''"
    by blast
  with st' have p: "\<exists>f. parse_line ?L ?st = Inr \<lparr>preamp = 0, filters = [f]\<rparr> \<and>
      ftype f = ''lowShelf''" by auto
  from thmN codes_absent[OF none len(3)] len(4)
  have n: "parse_line ?N ?st = Inr ?st" by simp
  from eL len(1) hit before d p eN none n show ?thesis by blast
qed

lemma no_token_default:
  "\<not> has_fc_token line \<Longrightarrow> field_value match_fc d line = Inr d"
  "\<not> has_gain_token line \<Longrightarrow> field_value match_gain d line = Inr d"
  "\<not> has_q_token line \<Longrightarrow> field_value match_q d line = Inr d"
  using fc_token_found[of line] gain_token_found[of line] q_token_found[of line]
  by (cases "re_search match_fc line"; cases "re_search match_gain line";
      cases "re_search match_q line"; simp add: field_value_def)+

text \<open>
  C5.  On an eligible filter line with a recognised type code, a filter record that is
  produced has the frequency 1000 when the \<^verbatim>\<open>Fc\<close> token is absent, the gain 0 when the
  \<^verbatim>\<open>Gain\<close> token is absent and the Q 0.707 when the \<^verbatim>\<open>Q\<close> token is absent, each
  field on its own; and when the \<^verbatim>\<open>Q\<close> token is absent a record is produced.
\<close>

theorem field_defaults:
  "eligible line \<Longrightarrow> detect_filter_type FILTER_TYPES (upper line) = Some ty \<Longrightarrow>
   (\<not> has_q_token line \<longrightarrow>
      (\<exists>f. parse_line line st = Inr (st\<lparr>filters := filters st @ [f]\<rparr>))) \<and>
   (\<forall>st'. parse_line line st = Inr st' \<longrightarrow>
      (\<exists>f. st' = st\<lparr>filters := filters st @ [f]\<rparr> \<and> ftype f = ty \<and>
           (\<not> has_fc_token line \<longrightarrow> freq f = 1000) \<and>
           (\<not> has_gain_token line \<longrightarrow> gain f = 0) \<and>
           (\<not> has_q_token line \<longrightarrow> q f = 707 / 1000)))"
proof (intro conjI impI allI)
  assume el: "eligible line" and d: "detect_filter_type FILTER_TYPES (upper line) = Some ty"
  obtain fr where fr: "field_value match_fc 1000 line = Inr fr"
    using fc_field_ok by blast
  obtain g where g: "field_value match_gain 0 line = Inr g"
    using gain_field_ok by blast
  {
    assume "\<not> has_q_token line"
    then have "field_value match_q (707 / 1000) line = Inr (707 / 1000)"
      by (rule no_token_default)
    then have "parse_line line st = Inr (st\<lparr>filters := filters st @
        [\<lparr>ftype = ty, freq = fr, q = 707 / 1000, gain = g\<rparr>]\<rparr>)"
      by (simp add: parse_line_eligible[OF el] d fr g)
    then show "\<exists>f. parse_line line st = Inr (st\<lparr>filters := filters st @ [f]\<rparr>)"
      by (rule exI)
  }
  fix st'
  assume "parse_line line st = Inr st'"
  then obtain qv where qv: "field_value match_q (707 / 1000) line = Inr qv"
    and st': "st' = st\<lparr>filters := filters st @
                 [\<lparr>ftype = ty, freq = fr, q = qv, gain = g\<rparr>]\<rparr>"
    unfolding parse_line_eligible[OF el] d fr g by (auto split: sum.splits)
  show "\<exists>f. st' = st\<lparr>filters := filters st @ [f]\<rparr> \<and> ftype f = ty \<and>
           (\<not> has_fc_token line \<longrightarrow> freq f = 1000) \<and>
           (\<not> has_gain_token line \<longrightarrow> gain f = 0) \<and>
           (\<not> has_q_token line \<longrightarrow> q f = 707 / 1000)"
    using st' fr g qv no_token_default[of line]
    by (intro exI[of _ "\<lparr>ftype = ty, freq = fr, q = qv, gain = g\<rparr>"]) auto
qed

theorem field_defaults_witness:
  "eligible ''Filter 1: ON PK Fc 50'' \<and>
   detect_filter_type FILTER_TYPES (upper ''Filter 1: ON PK Fc 50'') = Some ''peaking'' \<and>
   \<not> has_gain_token ''Filter 1: ON PK Fc 50'' \<and>
   \<not> has_q_token ''Filter 1: ON PK Fc 50'' \<and>
   (\<exists>f. parse_line ''Filter 1: ON PK Fc 50'' \<lparr>preamp = 0, filters = []\<rparr> =
          Inr \<lparr>preamp = 0, filters = [f]\<rparr> \<and>
        ftype f = ''peaking'' \<and> gain f = 0 \<and> q f = 707 / 1000) \<and>
   eligible ''Filter 2: ON HS Gain -2'' \<and>
   detect_filter_type FILTER_TYPES (upper ''Filter 2: ON HS Gain -2'') = Some ''highShelf'' \<and>
   \<not> has_fc_token ''Filter 2: ON HS Gain -2'' \<and>
   \<not> has_q_token ''Filter 2: ON HS Gain -2'' \<and>
   (\<exists>f. parse_line ''Filter 2: ON HS Gain -2'' \<lparr>preamp = 0, filters = []\<rparr> =
          Inr \<lparr>preamp = 0, filters = [f]\<rparr> \<and>
        ftype f = ''highShelf'' \<and> freq f = 1000 \<and> q f = 707 / 1000)"
proof -
  let ?A = "''Filter 1: ON PK Fc 50''" and ?B = "''Filter 2: ON HS Gain -2''"
  let ?st = "\<lparr>preamp = 0, filters = []\<rparr>"
  have uA: "upper ?A = ''FILTER 1: ON PK FC 50''" by (simp add: str_ev)
  have uB: "upper ?B = ''FILTER 2: ON HS GAIN -2''" by (simp add: str_ev)
  have eA: "eligible ?A"
    unfolding eligible_def contains_upper_iff[symmetric] uA by (simp add: str_ev)
  have eB: "eligible ?B"
    unfolding eligible_def contains_upper_iff[symmetric] uB by (simp add: str_ev)
  have dA: "detect_filter_type FILTER_TYPES (upper ?A) = Some ''peaking''"
    unfolding uA by (simp add: FILTER_TYPES_def)
  have dB: "detect_filter_type FILTER_TYPES (upper ?B) = Some ''highShelf''"
    unfolding uB by (simp add: FILTER_TYPES_def)
  have gA: "\<not> has_gain_token ?A" by (rule no_gain_token) (simp add: uA)
  have qA: "\<not> has_q_token ?A" by (rule no_q_token) (simp add: uA)
  have fB: "\<not> has_fc_token ?B" by (rule no_fc_token) (simp add: uB)
  have qB: "\<not> has_q_token ?B" by (rule no_q_token) (simp add: uB)
  note tA = field_defaults[OF eA dA, of ?st]
  note tB = field_defaults[OF eB dB, of ?st]
  from tA qA obtain f where f: "parse_line ?A ?st = Inr (?st\<lparr>filters := filters ?st @ [f]\<rparr>)"
    by blast
  with tA obtain f' where "?st\<lparr>filters := filters ?st @ [f]\<rparr> = ?st\<lparr>filters := filters ?st @ [f']\<rparr>"
    "ftype f' = ''peaking''" "\<not> has_gain_token ?A \<longrightarrow> gain f' = 0"
    "\<not> has_q_token ?A \<longrightarrow> q f' = 707 / 1000" by blast
  with f gA qA have rA: "\<exists>f. parse_line ?A ?st = Inr \<lparr>preamp = 0, filters = [f]\<rparr> \<and>
        ftype f = ''peaking'' \<and> gain f = 0 \<and> q f = 707 / 1000" by auto
  from tB qB obtain h where h: "parse_line ?B ?st = Inr (?st\<lparr>filters := filters ?st @ [h]\<rparr>)"
    by blast
  with tB obtain h' where "?st\<lparr>filters := filters ?st @ [h]\<rparr> = ?st\<lparr>filters := filters ?st @ [h']\<rparr>"
    "ftype h' = ''highShelf''" "\<not> has_fc_token ?B \<longrightarrow> freq h' = 1000"
    "\<not> has_q_token ?B \<longrightarrow> q h' = 707 / 1000" by blast
  with h fB qB have rB: "\<exists>f. parse_line ?B ?st = Inr \<lparr>preamp = 0, filters = [f]\<rparr> \<and>
        ftype f = ''highShelf'' \<and> freq f = 1000 \<and> q f = 707 / 1000" by auto
  from eA dA gA qA rA eB dB fB qB rB show ?thesis by blast
qed

lemma example_profile:
  "parse_profile (Some (''Preamp: -2.0 dB'' @ [CHR 0x0A] @
       ''Filter 1: ON PK Fc 105 Hz Gain -3.5 dB Q 0.70'')) =
   Inr (Some \<lparr>preamp = - 2, filters =
     [\<lparr>ftype = ''peaking'', freq = 105, q = 7 / 10, gain = - 7 / 2\<rparr>]\<rparr>)"
  by (simp add: parse_profile_def parse_raw_line_def parse_line_def FILTER_TYPES_def
      re_ev str_ev)

text \<open>
  C10.  Every filter record the profile parser appends has a frequency and a Q that are
  not negative: the invariant holds of every profile returned and is kept by every line.
  The gain and the preamp can be negative, as one profile shows.
\<close>

theorem freq_and_q_never_negative:
  "(parse_profile file = Inr (Some p) \<longrightarrow> nonneg_filters p) \<and>
   (parse_line line st = Inr st' \<longrightarrow> nonneg_filters st \<longrightarrow> nonneg_filters st') \<and>
   (\<exists>content p'. parse_profile (Some content) = Inr (Some p') \<and> preamp p' < 0 \<and>
      list_ex (\<lambda>f. gain f < 0) (filters p'))"
proof (intro conjI impI)
  assume "parse_profile file = Inr (Some p)"
  then show "nonneg_filters p" by (rule parse_profile_nonneg)
next
  assume "parse_line line st = Inr st'" "nonneg_filters st"
  then show "nonneg_filters st'" by (rule parse_line_nonneg)
next
  show "\<exists>content p'. parse_profile (Some content) = Inr (Some p') \<and> preamp p' < 0 \<and>
      list_ex (\<lambda>f. gain f < 0) (filters p')"
    using example_profile by (intro exI conjI) (assumption, simp_all)
qed

theorem freq_and_q_never_negative_witness:
  "parse_profile (Some (''Preamp: -2.0 dB'' @ [CHR 0x0A] @
       ''Filter 1: ON PK Fc 105 Hz Gain -3.5 dB Q 0.70'')) =
   Inr (Some \<lparr>preamp = - 2, filters =
     [\<lparr>ftype = ''peaking'', freq = 105, q = 7 / 10, gain = - 7 / 2\<rparr>]\<rparr>) \<and>
   nonneg_filters \<lparr>preamp = - 2, filters =
     [\<lparr>ftype = ''peaking'', freq = 105, q = 7 / 10, gain = - 7 / 2\<rparr>]\<rparr> \<and>
   parse_line ''Filter 1: ON PK Fc 105 Hz Gain -3.5 dB Q 0.70'' \<lparr>preamp = - 2, filters = []\<rparr> =
     Inr \<lparr>preamp = - 2, filters =
     [\<lparr>ftype = ''peaking'', freq = 105, q = 7 / 10, gain = - 7 / 2\<rparr>]\<rparr> \<and>
   nonneg_filters \<lparr>preamp = - 2, filters = []\<rparr>"
proof -
  have l: "parse_line ''Filter 1: ON PK Fc 105 Hz Gain -3.5 dB Q 0.70''
      \<lparr>preamp = - 2, filters = []\<rparr> =
     Inr \<lparr>preamp = - 2, filters =
     [\<lparr>ftype = ''peaking'', freq = 105, q = 7 / 10, gain = - 7 / 2\<rparr>]\<rparr>"
    by (simp add: parse_line_def FILTER_TYPES_def re_ev str_ev)
  have n: "nonneg_filters \<lparr>preamp = - 2, filters = []\<rparr>" by (simp add: nonneg_filters_def)
  from freq_and_q_never_negative[THEN conjunct1, rule_format, OF example_profile]
    freq_and_q_never_negative[THEN conjunct2, THEN conjunct1, rule_format, OF l n]
    example_profile l n
  show ?thesis by simp
qed

section \<open>Properties of the catalog builder\<close>

lemma merge_entry_lookup:
  "map_of (merge_entry k p e acc) k' =
     (if k' = k then
        (case map_of acc k of
           None \<Rightarrow> Some (p, e)
         | Some (p0, e0) \<Rightarrow> if p < p0 then Some (p, e) else Some (p0, e0))
      else map_of acc k')"
  by (auto simp: merge_entry_def update_conv' split: option.splits)

lemma merge_entry_keeps_better:
  "map_of acc k = Some (p0, e0) \<Longrightarrow>
   \<exists>p2 e2. map_of (merge_entry k1 p1 e1 acc) k = Some (p2, e2) \<and> p2 \<le> p0"
  by (cases "k = k1") (auto simp: merge_entry_lookup)

lemma merge_entry_inserts:
  "\<exists>p2 e2. map_of (merge_entry k p e acc) k = Some (p2, e2) \<and> p2 \<le> p"
  by (cases "map_of acc k") (auto simp: merge_entry_lookup)

lemma merge_all_monotone:
  "map_of acc k = Some (p0, e0) \<Longrightarrow>
   \<exists>p' e'. map_of (merge_all cs acc) k = Some (p', e') \<and> p' \<le> p0"
proof (induction cs arbitrary: acc p0 e0)
  case Nil
  then show ?case by simp
next
  case (Cons c cs)
  obtain k1 p1 e1 where c: "c = (k1, p1, e1)" by (cases c)
  from merge_entry_keeps_better[OF Cons.prems] obtain p2 e2 where
    m: "map_of (merge_entry k1 p1 e1 acc) k = Some (p2, e2)" "p2 \<le> p0"
    by blast
  from Cons.IH[OF m(1)] m(2) c show ?case by fastforce
qed

lemma merge_all_minimal:
  "(k, p, e) \<in> set cs \<Longrightarrow>
   \<exists>p' e'. map_of (merge_all cs acc) k = Some (p', e') \<and> p' \<le> p"
proof (induction cs arbitrary: acc)
  case Nil
  then show ?case by simp
next
  case (Cons c cs)
  obtain k1 p1 e1 where c: "c = (k1, p1, e1)" by (cases c)
  show ?case
  proof (cases "(k, p, e) = c")
    case True
    with c merge_entry_inserts[of k p e acc] obtain p2 e2 where
      m: "map_of (merge_entry k1 p1 e1 acc) k = Some (p2, e2)" "p2 \<le> p"
      by auto
    from merge_all_monotone[OF m(1), of cs] m(2) c show ?thesis by fastforce
  next
    case False
    with Cons.prems have "(k, p, e) \<in> set cs" by simp
    from Cons.IH[OF this] c show ?thesis by simp
  qed
qed

lemma merge_all_origin:
  "map_of (merge_all cs acc) k = Some (p', e') \<Longrightarrow>
   map_of acc k = Some (p', e') \<or> (k, p', e') \<in> set cs"
proof (induction cs arbitrary: acc)
  case Nil
  then show ?case by simp
next
  case (Cons c cs)
  obtain k1 p1 e1 where c: "c = (k1, p1, e1)" by (cases c)
  from Cons.prems c have "map_of (merge_all cs (merge_entry k1 p1 e1 acc)) k = Some (p', e')"
    by simp
  from Cons.IH[OF this] c show ?case
    by (auto simp: merge_entry_lookup split: if_splits option.splits)
qed

lemma fold_err_gather:
  assumes "\<And>x acc. step x acc =
     (case g x of Inl err \<Rightarrow> Inl err | Inr cs \<Rightarrow> Inr (merge_all cs acc))"
  shows "fold_err step xs acc =
     (case gather g xs of Inl err \<Rightarrow> Inl err | Inr cs \<Rightarrow> Inr (merge_all cs acc))"
proof (induction xs arbitrary: acc)
  case Nil
  then show ?case by simp
next
  case (Cons x xs)
  have app: "merge_all (a @ b) acc' = merge_all b (merge_all a acc')" for a b acc'
    by (induction a arbitrary: acc') auto
  show ?case
  proof (cases "g x")
    case (Inl err)
    then show ?thesis using assms[of x acc] by simp
  next
    case (Inr ys)
    then have s: "step x acc = Inr (merge_all ys acc)" using assms[of x acc] by simp
    show ?thesis using Cons.IH[of "merge_all ys acc"]
      by (simp add: s Inr app split: sum.splits)
  qed
qed

lemma visit_headphone_seen:
  "visit_headphone priority sn ff hp acc =
     (case seen_in_headphone priority sn ff hp of
        Inl err \<Rightarrow> Inl err | Inr cs \<Rightarrow> Inr (merge_all cs acc))"
  by (simp add: visit_headphone_def seen_in_headphone_def split: sum.splits option.splits)

lemma visit_target_seen:
  "visit_target priority sn tg acc =
     (case seen_in_target priority sn tg of
        Inl err \<Rightarrow> Inl err | Inr cs \<Rightarrow> Inr (merge_all cs acc))"
  by (cases tg)
     (simp add: visit_target_def seen_in_target_def fold_err_gather[OF visit_headphone_seen]
        split: node.splits)

lemma visit_source_seen:
  "visit_source rp src acc =
     (case seen_in_source rp src of
        Inl err \<Rightarrow> Inl err | Inr cs \<Rightarrow> Inr (merge_all cs acc))"
  by (cases src)
     (simp add: visit_source_def seen_in_source_def fold_err_gather[OF visit_target_seen]
        split: node.splits option.splits)

lemma collect_seen:
  "collect rp =
     (case seen rp of Inl err \<Rightarrow> Inl err | Inr cs \<Rightarrow> Inr (merge_all cs []))"
  unfolding collect_def seen_def by (rule fold_err_gather[OF visit_source_seen])

lemma parse_profile_unreadable: "parse_profile None = Inr None"
  by (simp add: parse_profile_def)

text \<open>
  C7.  A headphone folder whose profile file parses to no filter gives no entry, and the
  dictionary of entries is left as it was: the same outcome as for the folder without the
  file and for the folder with the file unreadable.
\<close>

theorem empty_profile_is_absent:
  "map_of ls (hp @ '' ParametricEQ.txt'') = Some peq \<Longrightarrow>
   parse_profile (read_text peq) = Inr (Some prof) \<Longrightarrow> filters prof = [] \<Longrightarrow>
   headphone_entry sn ff (hp, Dir ls) = Inr None \<and>
   visit_headphone pr sn ff (hp, Dir ls) acc = Inr acc \<and>
   visit_headphone pr sn ff (hp, Dir (AList.delete (hp @ '' ParametricEQ.txt'') ls)) acc =
     Inr acc \<and>
   visit_headphone pr sn ff
     (hp, Dir (AList.update (hp @ '' ParametricEQ.txt'') (File None) ls)) acc = Inr acc"
  by (simp add: visit_headphone_def headphone_entry_def delete_conv' update_conv'
      parse_profile_unreadable)

theorem empty_profile_is_absent_witness:
  "map_of [(''X1 ParametricEQ.txt'', File (Some ''Preamp: -3 dB''))]
     (''X1'' @ '' ParametricEQ.txt'') = Some (File (Some ''Preamp: -3 dB'')) \<and>
   parse_profile (read_text (File (Some ''Preamp: -3 dB''))) =
     Inr (Some \<lparr>preamp = - 3, filters = []\<rparr>) \<and>
   filters \<lparr>preamp = - 3, filters = []\<rparr> = [] \<and>
   visit_headphone 1 ''oratory1990'' ''over-ear''
     (''X1'', Dir [(''X1 ParametricEQ.txt'', File (Some ''Preamp: -3 dB''))]) [] = Inr [] \<and>
   visit_headphone 1 ''oratory1990'' ''over-ear'' (''X1'', Dir []) [] = Inr [] \<and>
   visit_headphone 1 ''oratory1990'' ''over-ear''
     (''X1'', Dir [(''X1 ParametricEQ.txt'', File None)]) [] = Inr []"
proof -
  have m: "map_of [(''X1 ParametricEQ.txt'', File (Some ''Preamp: -3 dB''))]
     (''X1'' @ '' ParametricEQ.txt'') = Some (File (Some ''Preamp: -3 dB''))"
    by simp
  have p: "parse_profile (read_text (File (Some ''Preamp: -3 dB''))) =
     Inr (Some \<lparr>preamp = - 3, filters = []\<rparr>)"
    by (simp add: parse_profile_def parse_raw_line_def parse_line_def re_ev str_ev)
  have f: "filters \<lparr>preamp = - 3, filters = []\<rparr> = []" by simp
  from empty_profile_is_absent[OF m p f, where pr = 1 and sn = "''oratory1990''"
      and ff = "''over-ear''" and acc = "[]"] m p
  show ?thesis by (simp add: AList.delete_eq)
qed

lemma update_member:
  "x \<in> set (AList.update k v al) \<Longrightarrow> x = (k, v) \<or> x \<in> set al"
  by (induction al) (auto split: if_splits)

lemma keyed_merge_entry:
  assumes "keyed acc"
  shows "keyed (merge_entry (entry_key e) p e acc)"
proof -
  have "keyed (AList.update (entry_key e) (p, e) acc)"
    using assms unfolding keyed_def list_all_iff
    by (auto simp: distinct_update dest: update_member)
  with assms show ?thesis by (auto simp: merge_entry_def split: option.splits)
qed

lemma keyed_merge_all:
  "keyed acc \<Longrightarrow> list_all (\<lambda>(k, p, e). k = entry_key e) cs \<Longrightarrow> keyed (merge_all cs acc)"
  by (induction cs acc rule: merge_all.induct) (auto simp: keyed_merge_entry)

lemma visit_headphone_keyed:
  "visit_headphone pr sn ff hp acc = Inr acc' \<Longrightarrow> keyed acc \<Longrightarrow> keyed acc'"
  by (auto simp: visit_headphone_def keyed_merge_entry split: sum.splits option.splits)

lemma visit_target_keyed:
  "visit_target pr sn tg acc = Inr acc' \<Longrightarrow> keyed acc \<Longrightarrow> keyed acc'"
  unfolding visit_target_def
  by (auto split: prod.splits node.splits
      elim: fold_err_invariant[of _ keyed, rotated 1] visit_headphone_keyed)

lemma visit_source_keyed:
  "visit_source rp src acc = Inr acc' \<Longrightarrow> keyed acc \<Longrightarrow> keyed acc'"
  unfolding visit_source_def
  by (auto split: prod.splits node.splits option.splits
      elim: fold_err_invariant[of _ keyed, rotated 1] visit_target_keyed)

lemma collect_keyed: "collect rp = Inr acc \<Longrightarrow> keyed acc"
proof -
  assume c: "collect rp = Inr acc"
  have "keyed []" by (simp add: keyed_def)
  show ?thesis
    by (rule fold_err_invariant[where P = keyed and f = "visit_source rp",
          OF _ \<open>keyed []\<close> c[unfolded collect_def]])
       (blast intro: visit_source_keyed)
qed

lemma keyed_entry_keys:
  "keyed acc \<Longrightarrow> map entry_key (map (\<lambda>(k, p, e). e) acc) = map fst acc"
  by (auto simp: keyed_def list_all_iff)

lemma distinct_map_sort_key:
  assumes "distinct (map f xs)"
  shows "distinct (map f (sort_key g xs))"
proof -
  have "card (set (map f (sort_key g xs))) = card (set (map f xs))" by simp
  also have "\<dots> = length (map f xs)" using assms by (rule distinct_card)
  also have "\<dots> = length (map f (sort_key g xs))" by simp
  finally show ?thesis by (rule card_distinct)
qed

lemma main_Inr:
  assumes "main argv fs now = Inr cat"
  shows "\<exists>rp acc. 2 \<le> length argv \<and> fs (argv ! 1) = Some rp \<and> collect rp = Inr acc \<and>
           cat = \<lparr>version = 1, generatedAt = now,
                  entryCount = length (sort_key entry_key (map (\<lambda>(k, p, e). e) acc)),
                  entries = sort_key entry_key (map (\<lambda>(k, p, e). e) acc)\<rparr>"
  using assms
  by (auto simp: main_def Let_def split: if_splits option.splits sum.splits)

text \<open>
  C3.  In every catalog that is emitted, the entries are in ascending order of the pair
  (manufacturer in lower case, model in lower case), compared as Python compares tuples of
  strings; no two entries have the same pair; and \<^verbatim>\<open>entryCount\<close> is the number of
  entries.
\<close>

theorem catalog_sorted_unique_counted:
  "main argv fs now = Inr cat \<Longrightarrow>
   sorted (map entry_key (entries cat)) \<and>
   distinct (map entry_key (entries cat)) \<and>
   entryCount cat = length (entries cat)"
proof -
  assume "main argv fs now = Inr cat"
  from main_Inr[OF this] obtain rp acc where c: "collect rp = Inr acc"
    and cat: "entries cat = sort_key entry_key (map (\<lambda>(k, p, e). e) acc)"
      "entryCount cat = length (sort_key entry_key (map (\<lambda>(k, p, e). e) acc))"
    by auto
  from collect_keyed[OF c] have k: "keyed acc" .
  then have "distinct (map entry_key (map (\<lambda>(k, p, e). e) acc))"
    unfolding keyed_entry_keys[OF k] by (simp add: keyed_def)
  then have "distinct (map entry_key (entries cat))"
    unfolding cat by (rule distinct_map_sort_key)
  moreover have "sorted (map entry_key (entries cat))"
    unfolding cat by (rule sorted_sort_key)
  ultimately show ?thesis using cat by simp
qed

lemma example_k702:
  "headphone_entry sn ff folder_k702 = Inr (Some (entry_k702 sn ff))"
  by (simp add: headphone_entry_def folder_k702_def entry_k702_def parse_profile_def
      parse_raw_line_def parse_line_def FILTER_TYPES_def parse_headphone_name_def
      manufacturers_def mfr_hit_def re_ev str_ev)

lemma example_k240:
  "headphone_entry sn ff folder_k240 = Inr (Some (entry_k240 sn ff))"
  by (simp add: headphone_entry_def folder_k240_def entry_k240_def parse_profile_def
      parse_raw_line_def parse_line_def FILTER_TYPES_def parse_headphone_name_def
      manufacturers_def mfr_hit_def re_ev str_ev)

lemma example_keys:
  "entry_key (entry_k702 sn ff) = (''akg'', ''k702'')"
  "entry_key (entry_k240 sn ff) = (''akg'', ''k240'')"
  by (simp_all add: entry_key_def entry_k702_def entry_k240_def str_ev)

lemma over_ear: "detect_form_factor ''over-ear'' = ''over-ear''"
  by (simp add: detect_form_factor_def str_ev)

lemma collect_one_source:
  "collect tree_one_source =
     Inr [((''akg'', ''k702''), 1, entry_k702 ''oratory1990'' ''over-ear''),
          ((''akg'', ''k240''), 1, entry_k240 ''oratory1990'' ''over-ear'')]"
  by (simp add: collect_def SOURCE_INFO_def visit_source_def visit_target_def
      visit_headphone_def tree_one_source_def over_ear example_k702 example_k240
      example_keys merge_entry_def)

lemma key_order: "((''akg'', ''k240'') :: key) \<le> (''akg'', ''k702'')"
  "\<not> ((''akg'', ''k702'') :: key) \<le> (''akg'', ''k240'')"
  by simp_all

lemma main_one_source:
  "main [''generate_index.py'', ''results''] [''results'' \<mapsto> tree_one_source] now =
     Inr \<lparr>version = 1, generatedAt = now, entryCount = 2,
          entries = [entry_k240 ''oratory1990'' ''over-ear'',
                     entry_k702 ''oratory1990'' ''over-ear'']\<rparr>"
  by (simp add: main_def collect_one_source example_keys key_order)

theorem catalog_sorted_unique_counted_witness:
  "main [''generate_index.py'', ''results''] [''results'' \<mapsto> tree_one_source] ''t'' =
     Inr \<lparr>version = 1, generatedAt = ''t'', entryCount = 2,
          entries = [entry_k240 ''oratory1990'' ''over-ear'',
                     entry_k702 ''oratory1990'' ''over-ear'']\<rparr> \<and>
   sorted [(''akg'', ''k240''), (''akg'', ''k702'') :: key] \<and>
   distinct [(''akg'', ''k240''), (''akg'', ''k702'') :: key] \<and>
   (2::nat) = length [entry_k240 ''oratory1990'' ''over-ear'',
                      entry_k702 ''oratory1990'' ''over-ear'']"
  using catalog_sorted_unique_counted[OF main_one_source[of "''t''"]] main_one_source[of "''t''"]
  by (simp add: example_keys)

lemma main_entries:
  assumes "main argv fs now = Inr cat"
  shows "\<exists>rp acc. fs (argv ! 1) = Some rp \<and> collect rp = Inr acc \<and>
           set (entries cat) = (\<lambda>(k, p, e). e) ` set acc"
proof -
  from main_Inr[OF assms] obtain rp acc where "fs (argv ! 1) = Some rp" "collect rp = Inr acc"
    "entries cat = sort_key entry_key (map (\<lambda>(k, p, e). e) acc)" by auto
  then show ?thesis by (intro exI[of _ rp] exI[of _ acc]) simp
qed

text \<open>
  C2.  Merging an entry under a key that is present replaces the kept entry exactly when
  the new priority is strictly lower, and keeps it otherwise, so at equal priority the
  first one stays; other keys are untouched.  The dictionary a run ends with is the merge
  of the entries it reached, and for every entry reached it holds an entry of the same
  key that was reached and whose priority is not higher.  Whatever the order, an entry
  whose priority is strictly lower than that of every other entry of its key is the one
  retained; the catalog holds exactly the retained entries.
\<close>

theorem priority_merge_rule:
  "map_of (merge_entry k p e acc) k =
      (case map_of acc k of
         None \<Rightarrow> Some (p, e)
       | Some (p0, e0) \<Rightarrow> if p < p0 then Some (p, e) else Some (p0, e0)) \<and>
   (k' \<noteq> k \<longrightarrow> map_of (merge_entry k p e acc) k' = map_of acc k') \<and>
   (collect rp = Inr acc' \<longrightarrow>
      (\<exists>cs. seen rp = Inr cs \<and> acc' = merge_all cs [] \<and>
         (\<forall>k1 p1 e1. (k1, p1, e1) \<in> set cs \<longrightarrow>
            (\<exists>p' e'. map_of acc' k1 = Some (p', e') \<and> p' \<le> p1 \<and> (k1, p', e') \<in> set cs)))) \<and>
   ((k, p, e) \<in> set cs \<and>
    (\<forall>p' e'. (k, p', e') \<in> set cs \<and> (p', e') \<noteq> (p, e) \<longrightarrow> p < p') \<longrightarrow>
      map_of (merge_all cs []) k = Some (p, e)) \<and>
   (main argv fs now = Inr cat \<longrightarrow>
      (\<exists>rp' acc''. fs (argv ! 1) = Some rp' \<and> collect rp' = Inr acc'' \<and>
         set (entries cat) = (\<lambda>(k, p, e). e) ` set acc''))"
proof (intro conjI impI)
  show "map_of (merge_entry k p e acc) k =
      (case map_of acc k of
         None \<Rightarrow> Some (p, e)
       | Some (p0, e0) \<Rightarrow> if p < p0 then Some (p, e) else Some (p0, e0))"
    by (simp add: merge_entry_lookup)
next
  assume "k' \<noteq> k"
  then show "map_of (merge_entry k p e acc) k' = map_of acc k'"
    by (simp add: merge_entry_lookup)
next
  assume c: "collect rp = Inr acc'"
  then obtain cs0 where s: "seen rp = Inr cs0" and a: "acc' = merge_all cs0 []"
    unfolding collect_seen by (auto split: sum.splits)
  have "\<exists>p' e'. map_of acc' k1 = Some (p', e') \<and> p' \<le> p1 \<and> (k1, p', e') \<in> set cs0"
    if "(k1, p1, e1) \<in> set cs0" for k1 p1 e1
  proof -
    from merge_all_minimal[OF that, of "[]"] a obtain p' e' where
      m: "map_of acc' k1 = Some (p', e')" "p' \<le> p1" by blast
    from merge_all_origin[OF m(1)[unfolded a]] have "(k1, p', e') \<in> set cs0" by simp
    with m show ?thesis by blast
  qed
  with s a show "\<exists>cs. seen rp = Inr cs \<and> acc' = merge_all cs [] \<and>
         (\<forall>k1 p1 e1. (k1, p1, e1) \<in> set cs \<longrightarrow>
            (\<exists>p' e'. map_of acc' k1 = Some (p', e') \<and> p' \<le> p1 \<and> (k1, p', e') \<in> set cs))"
    by blast
next
  assume h: "(k, p, e) \<in> set cs \<and>
    (\<forall>p' e'. (k, p', e') \<in> set cs \<and> (p', e') \<noteq> (p, e) \<longrightarrow> p < p')"
  from merge_all_minimal[of k p e cs "[]"] h obtain p' e' where
    m: "map_of (merge_all cs []) k = Some (p', e')" "p' \<le> p" by blast
  from merge_all_origin[OF m(1)] have "(k, p', e') \<in> set cs" by simp
  with h m(2) have "(p', e') = (p, e)" by force
  with m(1) show "map_of (merge_all cs []) k = Some (p, e)" by simp
next
  assume "main argv fs now = Inr cat"
  then show "\<exists>rp' acc''. fs (argv ! 1) = Some rp' \<and> collect rp' = Inr acc'' \<and>
         set (entries cat) = (\<lambda>(k, p, e). e) ` set acc''"
    by (rule main_entries)
qed

lemma seen_two_sources:
  "seen tree_two_sources =
     Inr [((''akg'', ''k702''), 1, entry_k702 ''oratory1990'' ''over-ear''),
          ((''akg'', ''k702''), 2, entry_k702 ''crinacle'' ''over-ear'')]"
  by (simp add: seen_def SOURCE_INFO_def seen_in_source_def seen_in_target_def
      seen_in_headphone_def tree_two_sources_def over_ear example_k702 example_keys)

lemma entries_differ:
  "entry_k702 ''crinacle'' ''over-ear'' \<noteq> entry_k702 ''oratory1990'' ''over-ear''"
  by (simp add: entry_k702_def)

theorem priority_merge_rule_witness:
  "collect tree_two_sources =
     Inr [((''akg'', ''k702''), 1, entry_k702 ''oratory1990'' ''over-ear'')] \<and>
   seen tree_two_sources =
     Inr [((''akg'', ''k702''), 1, entry_k702 ''oratory1990'' ''over-ear''),
          ((''akg'', ''k702''), 2, entry_k702 ''crinacle'' ''over-ear'')] \<and>
   map_of (merge_all
       [((''akg'', ''k702''), 2, entry_k702 ''crinacle'' ''over-ear''),
        ((''akg'', ''k702''), 1, entry_k702 ''oratory1990'' ''over-ear'')] [])
     (''akg'', ''k702'') = Some (1, entry_k702 ''oratory1990'' ''over-ear'') \<and>
   map_of (merge_entry (''akg'', ''k702'') 2 (entry_k702 ''crinacle'' ''over-ear'')
       [((''akg'', ''k702''), 2, entry_k702 ''oratory1990'' ''over-ear'')]) (''akg'', ''k702'') =
     Some (2, entry_k702 ''oratory1990'' ''over-ear'') \<and>
   (''akg'', ''k240'') \<noteq> ((''akg'', ''k702'') :: key) \<and>
   map_of (merge_entry (''akg'', ''k702'') 2 (entry_k702 ''crinacle'' ''over-ear'')
       [((''akg'', ''k702''), 2, entry_k702 ''oratory1990'' ''over-ear'')]) (''akg'', ''k240'') =
     None \<and>
   main [''generate_index.py'', ''results''] [''results'' \<mapsto> tree_two_sources] ''t'' =
     Inr \<lparr>version = 1, generatedAt = ''t'', entryCount = 1,
          entries = [entry_k702 ''oratory1990'' ''over-ear'']\<rparr>"
proof -
  let ?K = "(''akg'', ''k702'') :: key"
  let ?Eo = "entry_k702 ''oratory1990'' ''over-ear''"
  let ?Ec = "entry_k702 ''crinacle'' ''over-ear''"
  let ?cs = "[(?K, 2 :: nat, ?Ec), (?K, 1, ?Eo)]"
  let ?acc = "[(?K, 2 :: nat, ?Eo)]"
  have c: "collect tree_two_sources = Inr [(?K, 1, ?Eo)]"
    by (simp add: collect_seen seen_two_sources merge_entry_def)
  have mn: "main [''generate_index.py'', ''results''] [''results'' \<mapsto> tree_two_sources] ''t'' =
     Inr \<lparr>version = 1, generatedAt = ''t'', entryCount = 1, entries = [?Eo]\<rparr>"
    by (simp add: main_def c)
  note t = priority_merge_rule[where k = ?K and p = 1 and e = ?Eo and cs = ?cs
      and rp = tree_two_sources and acc' = "[(?K, 1, ?Eo)]"]
  have h4: "(?K, 1, ?Eo) \<in> set ?cs \<and>
    (\<forall>p' e'. (?K, p', e') \<in> set ?cs \<and> (p', e') \<noteq> (1, ?Eo) \<longrightarrow> 1 < p')"
    by auto
  from t[THEN conjunct2, THEN conjunct2, THEN conjunct2, THEN conjunct1, rule_format, OF h4]
  have r4: "map_of (merge_all ?cs []) ?K = Some (1, ?Eo)" .
  from t[THEN conjunct2, THEN conjunct2, THEN conjunct1, rule_format, OF c]
  obtain cs' where "seen tree_two_sources = Inr cs'" "[(?K, 1, ?Eo)] = merge_all cs' []"
    by blast
  note u = priority_merge_rule[where k = ?K and p = 2 and e = ?Ec and acc = ?acc
      and k' = "(''akg'', ''k240'')"]
  from u[THEN conjunct1]
  have r1: "map_of (merge_entry ?K 2 ?Ec ?acc) ?K = Some (2, ?Eo)" by simp
  have ne: "(''akg'', ''k240'') \<noteq> ?K" by simp
  from u[THEN conjunct2, THEN conjunct1, rule_format, OF ne]
  have r2: "map_of (merge_entry ?K 2 ?Ec ?acc) (''akg'', ''k240'') = None" by simp
  from c seen_two_sources r4 r1 ne r2 mn show ?thesis by blast
qed

text \<open>
  C1.  The claim that no content of a profile file can end the run fails on the code: the
  pattern for Q captures any run of digits and dots, \<^verbatim>\<open>float\<close> raises on a capture
  such as a single dot, and nothing catches the error.  The line, the profile and the
  whole run on a tree that holds this one file end in \<^verbatim>\<open>ValueError\<close>; no catalog is
  emitted.  (The captures for the preamp, the frequency and the gain are always accepted:
  \<open>match_signed_float\<close>, \<open>fc_field_ok\<close>, \<open>gain_field_ok\<close>.)
\<close>

theorem malformed_q_aborts_run:
  "parse_line ''Filter 1: ON PK Fc 100 Hz Gain 1 dB Q .'' st = Inl ValueError \<and>
   parse_profile (Some ''Filter 1: ON PK Fc 100 Hz Gain 1 dB Q .'') = Inl ValueError \<and>
   main [''generate_index.py'', ''results''] [''results'' \<mapsto> tree_bad_q] now =
     Inl ValueError"
proof -
  have l: "parse_line ''Filter 1: ON PK Fc 100 Hz Gain 1 dB Q .'' s = Inl ValueError" for s
    by (simp add: parse_line_def FILTER_TYPES_def re_ev str_ev)
  have r: "strip ''Filter 1: ON PK Fc 100 Hz Gain 1 dB Q .'' =
      ''Filter 1: ON PK Fc 100 Hz Gain 1 dB Q .''"
    by (simp add: str_ev)
  have p: "parse_profile (Some ''Filter 1: ON PK Fc 100 Hz Gain 1 dB Q .'') = Inl ValueError"
    by (simp add: parse_profile_def parse_raw_line_def r l)
  have "main [''generate_index.py'', ''results''] [''results'' \<mapsto> tree_bad_q] now =
     Inl ValueError"
    by (simp add: main_def collect_def SOURCE_INFO_def visit_source_def visit_target_def
        visit_headphone_def headphone_entry_def tree_bad_q_def p)
  with l p show ?thesis by blast
qed

section \<open>Runs on the same tree\<close>

















lemma merge_entry_cong:
  "map_of acc = map_of acc' \<Longrightarrow>
   map_of (merge_entry k p e acc) = map_of (merge_entry k p e acc')"
  by (rule ext) (simp add: merge_entry_lookup)

lemma merge_all_cong:
  "map_of acc = map_of acc' \<Longrightarrow> map_of (merge_all cs acc) = map_of (merge_all cs acc')"
proof (induction cs arbitrary: acc acc')
  case Nil
  then show ?case by simp
next
  case (Cons c cs)
  obtain k p e where c: "c = (k, p, e)" by (cases c)
  from Cons.IH[OF merge_entry_cong[OF Cons.prems]] c show ?case by simp
qed





















lemma main_one_source_swapped:
  "main [''generate_index.py'', ''results''] [''results'' \<mapsto> tree_one_source_swapped] now =
     Inr \<lparr>version = 1, generatedAt = now, entryCount = 2,
          entries = [entry_k240 ''oratory1990'' ''over-ear'',
                     entry_k702 ''oratory1990'' ''over-ear'']\<rparr>"
  by (simp add: main_def collect_def SOURCE_INFO_def visit_source_def visit_target_def
      visit_headphone_def tree_one_source_swapped_def over_ear example_k702 example_k240
      example_keys merge_entry_def key_order)




end
